theory Spec2Isabelle
  imports Complex_Main "HOL-Library.Sublist" "HOL-Library.Multiset" "HOL-Library.AList"
begin

section \<open>Strings, Unicode tables and Python list primitives\<close>

text \<open>
  A Python \<open>str\<close> is a sequence of Unicode code points, so \<open>len\<close> counts code points.
  It is modelled as a list of natural numbers. ASCII literals are written with \<open>str\<close>.
\<close>

type_synonym pystr = "nat list"

definition str :: "string \<Rightarrow> pystr" where
  "str s = map of_char s"

text \<open>
  The tables of the Python standard library that the program consults (\<open>str.lower\<close>,
  \<open>unicodedata.normalize('NFD', _)\<close>, \<open>unicodedata.combining\<close>, the whitespace class of
  \<open>str.split\<close>, \<open>str.strip\<close> and \<open>\S\<close>, and the word class of \<open>\w\<close>) are parameters.
\<close>

record unicodedata =
  lower :: "pystr \<Rightarrow> pystr"
  normalize_NFD :: "pystr \<Rightarrow> pystr"
  combining :: "nat \<Rightarrow> nat"
  isspace :: "nat \<Rightarrow> bool"
  isword :: "nat \<Rightarrow> bool"

text \<open>An instance that agrees with Python on ASCII text.\<close>

definition ascii_lower :: "pystr \<Rightarrow> pystr" where
  "ascii_lower s = map (\<lambda>c. if 65 \<le> c \<and> c \<le> 90 then c + 32 else c) s"

definition ascii_isspace :: "nat \<Rightarrow> bool" where
  "ascii_isspace c = (c = 32 \<or> (9 \<le> c \<and> c \<le> 13) \<or> (28 \<le> c \<and> c \<le> 31))"

definition ascii_isword :: "nat \<Rightarrow> bool" where
  "ascii_isword c = ((48 \<le> c \<and> c \<le> 57) \<or> (65 \<le> c \<and> c \<le> 90) \<or> c = 95 \<or> (97 \<le> c \<and> c \<le> 122))"

definition ascii :: unicodedata where
  "ascii = \<lparr> lower = ascii_lower, normalize_NFD = (\<lambda>s. s), combining = (\<lambda>c. 0),
             isspace = ascii_isspace, isword = ascii_isword \<rparr>"

text \<open>
  \<^verbatim>\<open>def remove_accents(input_str):
    nfkd_form = unicodedata.normalize('NFD', input_str)
    return ''.join([c for c in nfkd_form if not unicodedata.combining(c)])\<close>
\<close>

definition remove_accents :: "unicodedata \<Rightarrow> pystr \<Rightarrow> pystr" where
  "remove_accents U input_str =
     (let nfkd_form = normalize_NFD U input_str
      in filter (\<lambda>c. \<not> (combining U c \<noteq> 0)) nfkd_form)"

text \<open>The recurring expression \<open>remove_accents(s.lower())\<close>.\<close>

definition norm_text :: "unicodedata \<Rightarrow> pystr \<Rightarrow> pystr" where
  "norm_text U s = remove_accents U (lower U s)"

text \<open>
  The normalisation in the words of the specification: case-fold, decompose into base
  letters and combining marks, drop the combining marks.
\<close>

definition case_folded_accent_stripped :: "unicodedata \<Rightarrow> pystr \<Rightarrow> pystr" where
  "case_folded_accent_stripped U s =
     filter (\<lambda>c. combining U c = 0) (normalize_NFD U (lower U s))"

text \<open>Python's \<open>needle in haystack\<close> on strings is the contiguous-substring test.\<close>

definition str_in :: "pystr \<Rightarrow> pystr \<Rightarrow> bool" where
  "str_in needle haystack = sublist needle haystack"

text \<open>
  \<open>xs.sort(key=k, reverse=True)\<close>: CPython reverses the list, sorts it stably in
  ascending key order and reverses it again, so that equal keys keep their original order.
\<close>

definition sort_reverse :: "('a \<Rightarrow> 'k::linorder) \<Rightarrow> 'a list \<Rightarrow> 'a list" where
  "sort_reverse k xs = rev (sort_key k (rev xs))"

text \<open>\<open>s.split()\<close>: the maximal runs of non-whitespace characters.\<close>

fun split_acc :: "(nat \<Rightarrow> bool) \<Rightarrow> pystr \<Rightarrow> pystr \<Rightarrow> pystr list" where
  "split_acc sp cur [] = (if cur = [] then [] else [rev cur])"
| "split_acc sp cur (c # cs) =
     (if sp c then (if cur = [] then split_acc sp [] cs else rev cur # split_acc sp [] cs)
      else split_acc sp (c # cur) cs)"

definition split :: "unicodedata \<Rightarrow> pystr \<Rightarrow> pystr list" where
  "split U s = split_acc (isspace U) [] s"

text \<open>\<open>s.strip()\<close>: leading and trailing whitespace removed.\<close>

definition strip :: "unicodedata \<Rightarrow> pystr \<Rightarrow> pystr" where
  "strip U s = rev (dropWhile (isspace U) (rev (dropWhile (isspace U) s)))"

text \<open>The exceptions the modelled code can raise.\<close>

datatype pyerror = IndexError | KeyError | ValueError | TypeError

section \<open>The corpus\<close>

text \<open>
  A chunk record of \<open>GLOBAL_CORPUS\<close> is a JSON object; the keys the retrieval code reads are
  \<open>'text'\<close> and \<open>'embedding'\<close> (fields \<open>doc_text\<close> and \<open>doc_embedding\<close>), either of
  which may be absent. Scores and vector components
  are Python floats, idealised as reals.
\<close>

record chunk =
  doc_text :: "pystr option"
  doc_embedding :: "real list option"

definition MAX_SEARCH_RESULTS :: nat where
  "MAX_SEARCH_RESULTS = 50"

text \<open>\<open>GLOBAL_CORPUS[doc_id]['text']\<close>, with both ways it can raise.\<close>

definition corpus_text :: "chunk list \<Rightarrow> nat \<Rightarrow> pyerror + pystr" where
  "corpus_text corpus doc_id =
     (if doc_id < length corpus
      then (case doc_text (corpus ! doc_id) of None \<Rightarrow> Inl KeyError | Some t \<Rightarrow> Inr t)
      else Inl IndexError)"

section \<open>Exact text rerank\<close>

text \<open>
  \<^verbatim>\<open>def rerank_exact_text(top_docs, query_phrase):
    query_norm = remove_accents(query_phrase.lower())
    matched = []
    unmatched = []
    for doc_id, bm25_score in top_docs:
        doc_text = GLOBAL_CORPUS[doc_id]['text']
        doc_text_norm = remove_accents(doc_text.lower())
        if query_norm in doc_text_norm:
            matched.append((doc_id, bm25_score))
        else:
            unmatched.append((doc_id, bm25_score))
    return matched + unmatched\<close>
  The loop is a recursion over \<open>top_docs\<close> that carries both accumulators.
\<close>

fun exact_loop :: "unicodedata \<Rightarrow> chunk list \<Rightarrow> pystr \<Rightarrow> (nat \<times> real) list \<Rightarrow>
    (nat \<times> real) list \<Rightarrow> (nat \<times> real) list \<Rightarrow> pyerror + ((nat \<times> real) list \<times> (nat \<times> real) list)" where
  "exact_loop U corpus query_norm [] matched unmatched = Inr (matched, unmatched)"
| "exact_loop U corpus query_norm ((doc_id, bm25_score) # rest) matched unmatched =
     (case corpus_text corpus doc_id of
        Inl e \<Rightarrow> Inl e
      | Inr the_text \<Rightarrow>
          (let doc_text_norm = remove_accents U (lower U the_text)
           in if str_in query_norm doc_text_norm
              then exact_loop U corpus query_norm rest (matched @ [(doc_id, bm25_score)]) unmatched
              else exact_loop U corpus query_norm rest matched (unmatched @ [(doc_id, bm25_score)])))"

definition rerank_exact_text :: "unicodedata \<Rightarrow> chunk list \<Rightarrow> (nat \<times> real) list \<Rightarrow> pystr \<Rightarrow>
    pyerror + (nat \<times> real) list" where
  "rerank_exact_text U corpus top_docs query_phrase =
     (let query_norm = remove_accents U (lower U query_phrase)
      in case exact_loop U corpus query_norm top_docs [] [] of
           Inl e \<Rightarrow> Inl e
         | Inr (matched, unmatched) \<Rightarrow> Inr (matched @ unmatched))"

text \<open>
  The property the rerank partitions by, stated on a candidate: the case-folded,
  accent-stripped query is a contiguous sublist of the case-folded, accent-stripped text of
  the candidate's chunk.
\<close>

definition contains_query :: "unicodedata \<Rightarrow> chunk list \<Rightarrow> pystr \<Rightarrow> nat \<times> real \<Rightarrow> bool" where
  "contains_query U corpus query_phrase cand =
     (case doc_text (corpus ! fst cand) of
        None \<Rightarrow> False
      | Some t \<Rightarrow> sublist (case_folded_accent_stripped U query_phrase)
                         (case_folded_accent_stripped U t))"

definition has_text :: "chunk list \<Rightarrow> nat \<times> real \<Rightarrow> bool" where
  "has_text corpus cand = (fst cand < length corpus \<and> doc_text (corpus ! fst cand) \<noteq> None)"

section \<open>Simple text search\<close>

text \<open>
  \<^verbatim>\<open>def parse_simple_search_query(query_str):
    pattern = r'"([^"]+)"|(\S+)'
    matches = re.findall(pattern, query_str)
    quoted_phrases = []
    unquoted_words = []
    for (phrase, word) in matches:
        if phrase:
            quoted_phrases.append(phrase)
        elif word:
            unquoted_words.append(word)
    return quoted_phrases, unquoted_words\<close>
  \<open>re.findall\<close> scans from the left. At a double quote (code point 34) the first
  alternative matches when a non-empty run of non-quote characters is followed by a second
  quote; otherwise the second alternative takes the maximal run of non-whitespace
  characters; at a whitespace character nothing matches and the scan moves on by one.
  Each match is the pair of its two groups, the group that did not take part being empty.
\<close>

function findall_pattern :: "(nat \<Rightarrow> bool) \<Rightarrow> pystr \<Rightarrow> (pystr \<times> pystr) list" where
  "findall_pattern sp [] = []"
| "findall_pattern sp (c # cs) =
     (if c = 34 \<and> takeWhile (\<lambda>x. x \<noteq> 34) cs \<noteq> [] \<and> dropWhile (\<lambda>x. x \<noteq> 34) cs \<noteq> []
      then (takeWhile (\<lambda>x. x \<noteq> 34) cs, []) # findall_pattern sp (tl (dropWhile (\<lambda>x. x \<noteq> 34) cs))
      else if \<not> sp c
      then ([], c # takeWhile (\<lambda>x. \<not> sp x) cs) # findall_pattern sp (dropWhile (\<lambda>x. \<not> sp x) cs)
      else findall_pattern sp cs)"
  by pat_completeness auto
termination
proof (relation "measure (\<lambda>(sp, s). length s)")
  show "wf (measure (\<lambda>(sp, s). length s))" by simp
next
  fix sp :: "nat \<Rightarrow> bool" and c :: nat and cs :: pystr
  have "length (tl (dropWhile (\<lambda>x. x \<noteq> 34) cs)) \<le> length cs"
    using length_dropWhile_le[of "\<lambda>x. x \<noteq> 34" cs] by simp
  then show "((sp, tl (dropWhile (\<lambda>x. x \<noteq> 34) cs)), (sp, c # cs)) \<in> measure (\<lambda>(sp, s). length s)"
    by simp
next
  fix sp :: "nat \<Rightarrow> bool" and c :: nat and cs :: pystr
  show "((sp, dropWhile (\<lambda>x. \<not> sp x) cs), (sp, c # cs)) \<in> measure (\<lambda>(sp, s). length s)"
    using length_dropWhile_le[of "\<lambda>x. \<not> sp x" cs] by simp
next
  fix sp :: "nat \<Rightarrow> bool" and c :: nat and cs :: pystr
  show "((sp, cs), (sp, c # cs)) \<in> measure (\<lambda>(sp, s). length s)" by simp
qed

fun parse_loop :: "(pystr \<times> pystr) list \<Rightarrow> pystr list \<Rightarrow> pystr list \<Rightarrow> pystr list \<times> pystr list" where
  "parse_loop [] quoted_phrases unquoted_words = (quoted_phrases, unquoted_words)"
| "parse_loop ((phrase, word) # matches) quoted_phrases unquoted_words =
     (if phrase \<noteq> [] then parse_loop matches (quoted_phrases @ [phrase]) unquoted_words
      else if word \<noteq> [] then parse_loop matches quoted_phrases (unquoted_words @ [word])
      else parse_loop matches quoted_phrases unquoted_words)"

definition parse_simple_search_query :: "unicodedata \<Rightarrow> pystr \<Rightarrow> pystr list \<times> pystr list" where
  "parse_simple_search_query U query_str =
     (let matches = findall_pattern (isspace U) query_str
      in parse_loop matches [] [])"

text \<open>
  The "Simple text search" branch of \<open>SearchApp.search\<close>:
  \<^verbatim>\<open>quoted_phrases, unquoted_words = parse_simple_search_query(raw_query)
quoted_phrases_norm = [remove_accents(p.lower()) for p in quoted_phrases]
unquoted_words_norm = [remove_accents(w.lower()) for w in unquoted_words]
matches = []
for idx, doc in enumerate(GLOBAL_CORPUS):
    doc_text_norm = remove_accents(doc['text'].lower()) if 'text' in doc else ""
    if not all(phrase in doc_text_norm for phrase in quoted_phrases_norm):
        continue
    if not all(word in doc_text_norm for word in unquoted_words_norm):
        continue
    matches.append(idx)
self.results = [(doc_id, 1.0) for doc_id in matches]\<close>
\<close>

fun simple_loop :: "unicodedata \<Rightarrow> pystr list \<Rightarrow> pystr list \<Rightarrow> (nat \<times> chunk) list \<Rightarrow> nat list" where
  "simple_loop U quoted_phrases_norm unquoted_words_norm [] = []"
| "simple_loop U quoted_phrases_norm unquoted_words_norm ((idx, doc) # rest) =
     (let doc_text_norm = (case doc_text doc of Some t \<Rightarrow> remove_accents U (lower U t) | None \<Rightarrow> [])
      in if \<not> list_all (\<lambda>phrase. str_in phrase doc_text_norm) quoted_phrases_norm
         then simple_loop U quoted_phrases_norm unquoted_words_norm rest
         else if \<not> list_all (\<lambda>word. str_in word doc_text_norm) unquoted_words_norm
         then simple_loop U quoted_phrases_norm unquoted_words_norm rest
         else idx # simple_loop U quoted_phrases_norm unquoted_words_norm rest)"

definition simple_text_search :: "unicodedata \<Rightarrow> chunk list \<Rightarrow> pystr \<Rightarrow> (nat \<times> real) list" where
  "simple_text_search U corpus raw_query =
     (let (quoted_phrases, unquoted_words) = parse_simple_search_query U raw_query;
          quoted_phrases_norm = map (\<lambda>p. remove_accents U (lower U p)) quoted_phrases;
          unquoted_words_norm = map (\<lambda>w. remove_accents U (lower U w)) unquoted_words;
          matches = simple_loop U quoted_phrases_norm unquoted_words_norm (enumerate 0 corpus)
      in map (\<lambda>doc_id. (doc_id, 1)) matches)"

text \<open>
  The condition under which the loop above appends \<open>idx\<close>, for the phrases and words that
  \<open>parse_simple_search_query\<close> finds in the raw query.
\<close>

definition chunk_norm_text :: "unicodedata \<Rightarrow> chunk \<Rightarrow> pystr" where
  "chunk_norm_text U doc = (case doc_text doc of Some t \<Rightarrow> norm_text U t | None \<Rightarrow> [])"

definition code_matches :: "unicodedata \<Rightarrow> pystr \<Rightarrow> chunk \<Rightarrow> bool" where
  "code_matches U raw_query doc =
     ((\<forall>phrase \<in> set (fst (parse_simple_search_query U raw_query)).
         sublist (norm_text U phrase) (chunk_norm_text U doc)) \<and>
      (\<forall>word \<in> set (snd (parse_simple_search_query U raw_query)).
         sublist (norm_text U word) (chunk_norm_text U doc)))"

section \<open>Simple text search as specified\<close>

text \<open>
  The parse in the words of the specification: a phrase is any run delimited by double
  quotes, everything else is split on whitespace into single words. \<open>quoted_runs\<close> pairs
  the quotes from the left: each entry is what stands outside before an opening quote
  together with the run between that quote and the next one, and the second component is
  what is left after the last closing quote (a quote without a partner delimits nothing and
  stays in that remainder). The phrases are the runs; the words are the whitespace-separated
  pieces of the parts outside.
\<close>

function quoted_runs :: "pystr \<Rightarrow> (pystr \<times> pystr) list \<times> pystr" where
  "quoted_runs s =
     (case dropWhile (\<lambda>c. c \<noteq> 34) s of
        [] \<Rightarrow> ([], s)
      | q1 # r \<Rightarrow>
          (case dropWhile (\<lambda>c. c \<noteq> 34) r of
             [] \<Rightarrow> ([], s)
           | q2 # after \<Rightarrow>
               (let (runs, remainder) = quoted_runs after
                in ((takeWhile (\<lambda>c. c \<noteq> 34) s, takeWhile (\<lambda>c. c \<noteq> 34) r) # runs, remainder))))"
  by pat_completeness auto
termination
proof (relation "measure length")
  show "wf (measure length)" by simp
next
  fix s :: pystr and q1 r q2 after
  assume a: "dropWhile (\<lambda>c. c \<noteq> 34) s = q1 # r"
    and b: "dropWhile (\<lambda>c. c \<noteq> 34) r = q2 # after"
  have "length (q1 # r) \<le> length s"
    using length_dropWhile_le[of "\<lambda>c. c \<noteq> 34" s] by (simp only: a)
  moreover have "length (q2 # after) \<le> length r"
    using length_dropWhile_le[of "\<lambda>c. c \<noteq> 34" r] by (simp only: b)
  ultimately show "(after, s) \<in> measure length" by simp
qed

declare quoted_runs.simps [simp del]

definition spec_parse :: "unicodedata \<Rightarrow> pystr \<Rightarrow> pystr list \<times> pystr list" where
  "spec_parse U raw_query =
     (let (runs, remainder) = quoted_runs raw_query
      in (map snd runs, concat (map (\<lambda>(outside, phrase). split U outside) runs) @ split U remainder))"

text \<open>
  The matching condition in the words of the specification: the case-folded,
  accent-stripped text of the chunk (the empty string for a chunk without text) contains
  every quoted phrase and every unquoted word of the query, compared case-folded and
  accent-stripped as well, as a contiguous substring.
\<close>

definition chunk_folded_text :: "unicodedata \<Rightarrow> chunk \<Rightarrow> pystr" where
  "chunk_folded_text U doc =
     (case doc_text doc of Some t \<Rightarrow> case_folded_accent_stripped U t | None \<Rightarrow> [])"

definition chunk_matches :: "unicodedata \<Rightarrow> pystr \<Rightarrow> chunk \<Rightarrow> bool" where
  "chunk_matches U raw_query doc =
     ((\<forall>phrase \<in> set (fst (spec_parse U raw_query)).
         sublist (case_folded_accent_stripped U phrase) (chunk_folded_text U doc)) \<and>
      (\<forall>word \<in> set (snd (spec_parse U raw_query)).
         sublist (case_folded_accent_stripped U word) (chunk_folded_text U doc)))"

text \<open>
  A query is well quoted when no quoted run is empty and every opening quote stands at
  the start of the query, after a whitespace character, or directly after the closing
  quote of the run before it.
\<close>

definition well_quoted :: "unicodedata \<Rightarrow> pystr \<Rightarrow> bool" where
  "well_quoted U raw_query =
     list_all (\<lambda>(outside, phrase). phrase \<noteq> [] \<and> (outside = [] \<or> isspace U (last outside)))
       (fst (quoted_runs raw_query))"

text \<open>A string between double quotes, for writing example queries.\<close>

definition quoted :: "pystr \<Rightarrow> pystr" where
  "quoted s = [34] @ s @ [34]"

section \<open>Minimal span rerank\<close>

text \<open>
  \<^verbatim>\<open>def minimal_span_score(text, query_terms):
    norm_text = remove_accents(text.lower())
    norm_query_terms = [remove_accents(qt.lower()) for qt in query_terms]
    words = norm_text.split()
    positions = {term: [] for term in norm_query_terms}
    for i, w in enumerate(words):
        if w in positions:
            positions[w].append(i)
    for term in norm_query_terms:
        if not positions[term]:
            return 0.0
    all_positions = []
    for t in norm_query_terms:
        all_positions.extend((p, t) for p in positions[t])
    all_positions.sort(key=lambda x: x[0])
    best_span = len(words) + 1
    found_terms = {}
    left = 0
    for right in range(len(all_positions)):
        pos_right, term_right = all_positions[right]
        found_terms[term_right] = pos_right
        while len(found_terms) == len(norm_query_terms):
            span = max(found_terms.values()) - min(found_terms.values()) + 1
            if span < best_span:
                best_span = span
            pos_left, term_left = all_positions[left]
            if found_terms.get(term_left, None) == pos_left:
                del found_terms[term_left]
            left += 1
    return 1.0 / (best_span + 1)\<close>
  \<open>positions[term]\<close> is the ascending list of the indices at which \<open>term\<close> stands in
  \<open>words\<close>. The dictionary \<open>found_terms\<close> is an association list with distinct keys.
\<close>

definition positions :: "pystr list \<Rightarrow> pystr \<Rightarrow> nat list" where
  "positions words term = map fst (filter (\<lambda>(i, w). w = term) (enumerate 0 words))"

definition all_positions_of :: "pystr list \<Rightarrow> pystr list \<Rightarrow> (nat \<times> pystr) list" where
  "all_positions_of words norm_query_terms =
     sort_key fst (concat (map (\<lambda>t. map (\<lambda>p. (p, t)) (positions words t)) norm_query_terms))"

definition span_of :: "(pystr \<times> nat) list \<Rightarrow> nat" where
  "span_of found_terms = Max (set (map snd found_terms)) - Min (set (map snd found_terms)) + 1"

definition drop_left :: "(nat \<times> pystr) list \<Rightarrow> nat \<Rightarrow> (pystr \<times> nat) list \<Rightarrow> (pystr \<times> nat) list" where
  "drop_left all_positions left found_terms =
     (let pos_left = fst (all_positions ! left); term_left = snd (all_positions ! left)
      in if map_of found_terms term_left = Some pos_left
         then AList.delete term_left found_terms else found_terms)"

text \<open>
  The \<open>while\<close> loop. \<open>max\<close> of an empty dictionary and \<open>all_positions[left]\<close> beyond the
  end raise.
\<close>

function span_while :: "(nat \<times> pystr) list \<Rightarrow> nat \<Rightarrow> (pystr \<times> nat) list \<Rightarrow> nat \<Rightarrow> nat \<Rightarrow>
    pyerror + ((pystr \<times> nat) list \<times> nat \<times> nat)" where
  "span_while all_positions n found_terms left best_span =
     (if length found_terms = n
      then (if found_terms = [] then Inl ValueError
            else if length all_positions \<le> left then Inl IndexError
            else span_while all_positions n (drop_left all_positions left found_terms) (left + 1)
                   (if span_of found_terms < best_span then span_of found_terms else best_span))
      else Inr (found_terms, left, best_span))"
  by pat_completeness auto
termination
  by (relation "measure (\<lambda>(all_positions, n, found_terms, left, best_span). length all_positions - left)")
     auto

text \<open>The \<open>for\<close> loop, over the entries \<open>all_positions[right]\<close> in order.\<close>

fun span_for :: "(nat \<times> pystr) list \<Rightarrow> nat \<Rightarrow> (nat \<times> pystr) list \<Rightarrow>
    (pystr \<times> nat) list \<times> nat \<times> nat \<Rightarrow> pyerror + ((pystr \<times> nat) list \<times> nat \<times> nat)" where
  "span_for all_positions n [] st = Inr st"
| "span_for all_positions n ((pos_right, term_right) # rest) (found_terms, left, best_span) =
     (case span_while all_positions n (AList.update term_right pos_right found_terms) left best_span of
        Inl e \<Rightarrow> Inl e
      | Inr st \<Rightarrow> span_for all_positions n rest st)"

definition minimal_span_score :: "unicodedata \<Rightarrow> pystr \<Rightarrow> pystr list \<Rightarrow> pyerror + real" where
  "minimal_span_score U txt query_terms =
     (let norm_txt = remove_accents U (lower U txt);
          norm_query_terms = map (\<lambda>qt. remove_accents U (lower U qt)) query_terms;
          words = split U norm_txt
      in if list_ex (\<lambda>term. positions words term = []) norm_query_terms then Inr 0
         else (let all_positions = all_positions_of words norm_query_terms
               in case span_for all_positions (length norm_query_terms) all_positions
                         ([], 0, length words + 1) of
                    Inl e \<Rightarrow> Inl e
                  | Inr (found_terms, left, best_span) \<Rightarrow> Inr (1 / (real best_span + 1))))"

text \<open>
  \<^verbatim>\<open>def rerank_minimal_span(top_docs, query_terms):
    doc_scores = []
    for doc_id, bm25_score in top_docs:
        text = GLOBAL_CORPUS[doc_id]['text']
        ms_score = minimal_span_score(text, query_terms)
        doc_scores.append((doc_id, ms_score))
    doc_scores.sort(key=lambda x: x[1], reverse=True)
    return doc_scores\<close>
\<close>

fun span_scores :: "unicodedata \<Rightarrow> chunk list \<Rightarrow> pystr list \<Rightarrow> (nat \<times> real) list \<Rightarrow>
    pyerror + (nat \<times> real) list" where
  "span_scores U corpus query_terms [] = Inr []"
| "span_scores U corpus query_terms ((doc_id, bm25_score) # rest) =
     (case corpus_text corpus doc_id of
        Inl e \<Rightarrow> Inl e
      | Inr txt \<Rightarrow>
          (case minimal_span_score U txt query_terms of
             Inl e \<Rightarrow> Inl e
           | Inr ms_score \<Rightarrow>
               (case span_scores U corpus query_terms rest of
                  Inl e \<Rightarrow> Inl e
                | Inr doc_scores \<Rightarrow> Inr ((doc_id, ms_score) # doc_scores))))"

definition rerank_minimal_span :: "unicodedata \<Rightarrow> chunk list \<Rightarrow> (nat \<times> real) list \<Rightarrow> pystr list \<Rightarrow>
    pyerror + (nat \<times> real) list" where
  "rerank_minimal_span U corpus top_docs query_terms =
     (case span_scores U corpus query_terms top_docs of
        Inl e \<Rightarrow> Inl e
      | Inr doc_scores \<Rightarrow> Inr (sort_reverse snd doc_scores))"

section \<open>The span score in the words of the specification\<close>

text \<open>
  A window of word positions \<open>i..j\<close> covers the terms when every term stands at some
  position of the window. The best span width is the least width \<open>j - i + 1\<close> of a covering
  window; the span score is 0 when some term stands nowhere in the text and
  \<open>1 / (best_span_width + 1)\<close> otherwise.
\<close>

definition covers :: "pystr list \<Rightarrow> pystr list \<Rightarrow> nat \<Rightarrow> nat \<Rightarrow> bool" where
  "covers words terms i j =
     (i \<le> j \<and> j < length words \<and> (\<forall>t \<in> set terms. \<exists>p. i \<le> p \<and> p \<le> j \<and> words ! p = t))"

definition best_span_width :: "pystr list \<Rightarrow> pystr list \<Rightarrow> nat" where
  "best_span_width words terms = (LEAST w. \<exists>i j. covers words terms i j \<and> w = j - i + 1)"

definition span_score_spec :: "unicodedata \<Rightarrow> pystr \<Rightarrow> pystr list \<Rightarrow> real" where
  "span_score_spec U txt query_terms =
     (let words = split U (norm_text U txt); terms = map (norm_text U) query_terms
      in if \<exists>t \<in> set terms. t \<notin> set words then 0
         else 1 / (real (best_span_width words terms) + 1))"

text \<open>
  Notions for the analysis of the two-pointer scan. \<open>occurrences_ok\<close> says what the list
  \<open>all_positions\<close> is: the occurrences of the terms in the text, each as a pair of position
  and word, in strictly ascending order of position.
\<close>

definition occurrences_ok :: "pystr list \<Rightarrow> pystr list \<Rightarrow> (nat \<times> pystr) list \<Rightarrow> bool" where
  "occurrences_ok W T A \<longleftrightarrow>
     sorted_wrt (<) (map fst A) \<and>
     (\<forall>k < length A. fst (A ! k) < length W \<and> W ! fst (A ! k) = snd (A ! k) \<and> snd (A ! k) \<in> set T) \<and>
     (\<forall>p < length W. W ! p \<in> set T \<longrightarrow> (\<exists>k < length A. A ! k = (p, W ! p)))"

text \<open>
  The invariant of the \<open>while\<close> loop while entry \<open>r\<close> of \<open>all_positions\<close> is being processed,
  and the invariant of the \<open>for\<close> loop before entry \<open>r\<close>: every entry of \<open>found_terms\<close> is the
  last occurrence of its term so far and lies at or after \<open>left\<close>; for a term seen but no
  longer in \<open>found_terms\<close>, \<open>best_span\<close> already accounts for every window that ends at the
  current position; \<open>best_span\<close> is a lower bound for the windows that end before the
  current position and is either still the initial value or the width of a covering window.
\<close>

definition span_inv :: "pystr list \<Rightarrow> pystr list \<Rightarrow> (nat \<times> pystr) list \<Rightarrow> nat \<Rightarrow>
    (pystr \<times> nat) list \<Rightarrow> nat \<Rightarrow> nat \<Rightarrow> bool" where
  "span_inv W T A r found left best \<longleftrightarrow>
     r < length A \<and> left \<le> Suc r \<and>
     distinct (map fst found) \<and> dom (map_of found) \<subseteq> set T \<and>
     (\<forall>u q. map_of found u = Some q \<longrightarrow>
        (\<exists>k. left \<le> k \<and> k \<le> r \<and> A ! k = (q, u) \<and> (\<forall>k' \<le> r. snd (A ! k') = u \<longrightarrow> k' \<le> k))) \<and>
     (\<forall>k \<le> r. map_of found (snd (A ! k)) = None \<longrightarrow> best \<le> fst (A ! r) - fst (A ! k) + 1) \<and>
     (\<forall>i j. covers W T i j \<and> j < fst (A ! r) \<longrightarrow> best \<le> j - i + 1) \<and>
     (best = length W + 1 \<or> (\<exists>i j. covers W T i j \<and> best = j - i + 1))"

definition span_pre :: "pystr list \<Rightarrow> pystr list \<Rightarrow> (nat \<times> pystr) list \<Rightarrow> nat \<Rightarrow>
    (pystr \<times> nat) list \<Rightarrow> nat \<Rightarrow> nat \<Rightarrow> bool" where
  "span_pre W T A r found left best \<longleftrightarrow>
     r \<le> length A \<and> left \<le> r \<and>
     distinct (map fst found) \<and> dom (map_of found) \<subseteq> set T \<and>
     (\<forall>u q. map_of found u = Some q \<longrightarrow>
        (\<exists>k. left \<le> k \<and> k < r \<and> A ! k = (q, u) \<and> (\<forall>k' < r. snd (A ! k') = u \<longrightarrow> k' \<le> k))) \<and>
     (\<forall>k < r. map_of found (snd (A ! k)) = None \<longrightarrow> best \<le> fst (A ! (r - 1)) - fst (A ! k) + 1) \<and>
     (\<forall>i j. covers W T i j \<and> (\<forall>k. r \<le> k \<and> k < length A \<longrightarrow> j < fst (A ! k)) \<longrightarrow> best \<le> j - i + 1) \<and>
     (best = length W + 1 \<or> (\<exists>i j. covers W T i j \<and> best = j - i + 1))"

section \<open>External collaborators\<close>

text \<open>
  The library \<open>bm25s\<close> is not part of the repository; the three entry points the
  program calls are parameters. \<open>tokenize\<close> stands for
  \<open>bm25s.tokenize(_, stopwords="en")\<close> on a list of texts (the program passes the query
  as a single string, which the library treats as a one-element list; on strings, which
  is all the texts and queries are here, it returns), \<open>index\<close> for
  \<open>BM25().index(_)\<close>, which raises on a corpus without any token, and
  \<open>retrieve model q k\<close> for \<open>model.retrieve(q, k=k)\<close>, whose result is the pair of the
  rows \<open>results[0]\<close> and \<open>scores[0]\<close>.
\<close>

record ('tok, 'model) bm25s =
  tokenize :: "pystr list \<Rightarrow> 'tok"
  index :: "'tok \<Rightarrow> pyerror + 'model"
  retrieve :: "'model \<Rightarrow> 'tok \<Rightarrow> nat \<Rightarrow> pyerror + (nat list \<times> real list)"

text \<open>
  \<open>fastembed\<close>: the cross-encoder \<open>TextCrossEncoder.rerank(query, documents)\<close>. The query
  embedder \<open>GLOBAL_EMBED_MODEL.query_embed\<close> is held in the global state below.
\<close>

record fastembed =
  cross_encoder_rerank :: "pystr \<Rightarrow> pystr list \<Rightarrow> real list"

section \<open>Global state and the application object\<close>

record 'model globals =
  GLOBAL_CORPUS :: "chunk list"
  GLOBAL_BM25_MODEL :: "'model option"
  GLOBAL_EMBED_MODEL :: "(pystr \<Rightarrow> real list) option"
  FASTEMBED_AVAILABLE :: bool

datatype search_method = BM25 | Simple_text_search | Embeddings_search

datatype rerank_method =
  No_reranking | Minimal_span_based_scoring | Exact_text_search | Embeddings_rerank

text \<open>
  What \<open>result_display\<close> shows: a plain message (\<open>setText\<close>) or the rendering of the
  current result (\<open>setHtml\<close> in \<open>show_current_chunk\<close>), identified by its chunk id.
\<close>

datatype display = Message string | Chunk_view nat

record search_app =
  query_input :: pystr
  search_method_combo :: search_method
  rerank_combo :: rerank_method
  embeddings_present :: bool
  results :: "(nat \<times> real) list"
  current_result_index :: nat
  query_terms :: "pystr list"
  result_display :: display

section \<open>BM25 retrieval\<close>

text \<open>
  \<^verbatim>\<open>tokenized_query = bm25s.tokenize(raw_query, stopwords="en")
results, scores = GLOBAL_BM25_MODEL.retrieve(tokenized_query, k=len(GLOBAL_CORPUS))
bm25_ranking = [(doc_idx, scores[0, i]) for i, doc_idx in enumerate(results[0])]
bm25_ranking.sort(key=lambda x: x[1], reverse=True)
truncated_ranking = bm25_ranking[:MAX_SEARCH_RESULTS]\<close>
  Reading \<open>scores[0, i]\<close> raises when the score row is shorter than the result row.
\<close>

definition bm25_retrieval :: "('tok, 'model) bm25s \<Rightarrow> 'model \<Rightarrow> chunk list \<Rightarrow> pystr \<Rightarrow>
    pyerror + (nat \<times> real) list" where
  "bm25_retrieval L model corpus raw_query =
     (let tokenized_query = tokenize L [raw_query]
      in case retrieve L model tokenized_query (length corpus) of
           Inl e \<Rightarrow> Inl e
         | Inr (results0, scores0) \<Rightarrow>
             if length scores0 < length results0 then Inl IndexError
             else (let bm25_ranking = zip results0 scores0;
                       bm25_ranking = sort_reverse snd bm25_ranking;
                       truncated_ranking = take MAX_SEARCH_RESULTS bm25_ranking
                   in Inr truncated_ranking))"

text \<open>
  \<^verbatim>\<open>def rerank_with_embeddings(self, top_docs, query_phrase):
    encoder = TextCrossEncoder(model_name="Xenova/ms-marco-MiniLM-L-6-v2")
    documents = [GLOBAL_CORPUS[doc_id]['text'] for (doc_id, _score) in top_docs]
    scores = list(encoder.rerank(query_phrase, documents))
    doc_scores = []
    for (doc_id, _bm25score), embed_score in zip(top_docs, scores):
        doc_scores.append((doc_id, embed_score))
    doc_scores.sort(key=lambda x: x[1], reverse=True)
    return doc_scores\<close>
\<close>

fun documents_of :: "chunk list \<Rightarrow> (nat \<times> real) list \<Rightarrow> pyerror + pystr list" where
  "documents_of corpus [] = Inr []"
| "documents_of corpus ((doc_id, score) # rest) =
     (case corpus_text corpus doc_id of
        Inl e \<Rightarrow> Inl e
      | Inr t \<Rightarrow> (case documents_of corpus rest of Inl e \<Rightarrow> Inl e | Inr ts \<Rightarrow> Inr (t # ts)))"

definition rerank_with_embeddings :: "fastembed \<Rightarrow> chunk list \<Rightarrow> (nat \<times> real) list \<Rightarrow> pystr \<Rightarrow>
    pyerror + (nat \<times> real) list" where
  "rerank_with_embeddings X corpus top_docs query_phrase =
     (case documents_of corpus top_docs of
        Inl e \<Rightarrow> Inl e
      | Inr documents \<Rightarrow>
          (let scores = cross_encoder_rerank X query_phrase documents;
               doc_scores = map (\<lambda>((doc_id, bm25score), embed_score). (doc_id, embed_score))
                              (zip top_docs scores)
           in Inr (sort_reverse snd doc_scores)))"

section \<open>Embeddings search\<close>

text \<open>\<open>np.dot\<close> of two one-dimensional arrays; it raises when the lengths differ.\<close>

definition np_dot :: "real list \<Rightarrow> real list \<Rightarrow> pyerror + real" where
  "np_dot a b = (if length a = length b then Inr (sum_list (map (\<lambda>(x, y). x * y) (zip a b)))
                 else Inl ValueError)"

text \<open>
  \<^verbatim>\<open>doc_scores = []
for idx, doc in enumerate(GLOBAL_CORPUS):
    if 'embedding' not in doc:
        continue
    text = doc.get('text', '')
    if not text.strip():
        continue
    emb = doc['embedding']
    emb_score = float(np.dot(emb, query_embedding))
    doc_scores.append((idx, emb_score))
doc_scores.sort(key=lambda x: x[1], reverse=True)
top_k = doc_scores[:MAX_SEARCH_RESULTS]
length_penalty_exponent = 0.5
penalized_scores = []
for (idx, base_score) in top_k:
    text = GLOBAL_CORPUS[idx].get('text', '')
    length = len(text)
    if length > 0:
        final_score = base_score * (length ** length_penalty_exponent)
    else:
        final_score = 0.0
    penalized_scores.append((idx, final_score))
penalized_scores.sort(key=lambda x: x[1], reverse=True)\<close>
\<close>

definition get_text :: "chunk \<Rightarrow> pystr" where
  "get_text doc = (case doc_text doc of Some t \<Rightarrow> t | None \<Rightarrow> [])"

fun dot_scores :: "unicodedata \<Rightarrow> real list \<Rightarrow> (nat \<times> chunk) list \<Rightarrow> pyerror + (nat \<times> real) list" where
  "dot_scores U query_embedding [] = Inr []"
| "dot_scores U query_embedding ((idx, doc) # rest) =
     (case doc_embedding doc of
        None \<Rightarrow> dot_scores U query_embedding rest
      | Some emb \<Rightarrow>
          if strip U (get_text doc) = [] then dot_scores U query_embedding rest
          else (case np_dot emb query_embedding of
                  Inl e \<Rightarrow> Inl e
                | Inr emb_score \<Rightarrow>
                    (case dot_scores U query_embedding rest of
                       Inl e \<Rightarrow> Inl e
                     | Inr doc_scores \<Rightarrow> Inr ((idx, emb_score) # doc_scores))))"

definition penalized :: "chunk list \<Rightarrow> nat \<times> real \<Rightarrow> nat \<times> real" where
  "penalized corpus c =
     (let idx = fst c; base_score = snd c;
          len = length (get_text (corpus ! idx))
      in if len > 0 then (idx, base_score * sqrt (real len)) else (idx, 0))"

definition embeddings_search :: "unicodedata \<Rightarrow> chunk list \<Rightarrow> real list \<Rightarrow> pyerror + (nat \<times> real) list" where
  "embeddings_search U corpus query_embedding =
     (case dot_scores U query_embedding (enumerate 0 corpus) of
        Inl e \<Rightarrow> Inl e
      | Inr doc_scores \<Rightarrow>
          (let doc_scores = sort_reverse snd doc_scores;
               top_k = take MAX_SEARCH_RESULTS doc_scores;
               penalized_scores = map (penalized corpus) top_k
           in Inr (sort_reverse snd penalized_scores)))"

section \<open>The search call\<close>

text \<open>
  \<open>show_current_chunk\<close> renders \<open>GLOBAL_CORPUS[doc_id]\<close> for the current result; the
  lookup raises for an id outside the corpus. (The PDF view is not modelled.)
\<close>

definition show_current_chunk :: "chunk list \<Rightarrow> search_app \<Rightarrow> pyerror + search_app" where
  "show_current_chunk corpus app =
     (if results app = [] then Inr (app\<lparr> result_display := Message ''No results found.'' \<rparr>)
      else if length (results app) \<le> current_result_index app then Inl IndexError
      else (let doc_id = fst (results app ! current_result_index app)
            in if doc_id < length corpus then Inr (app\<lparr> result_display := Chunk_view doc_id \<rparr>)
               else Inl IndexError))"

text \<open>
  The common ending of the three branches:
  \<^verbatim>\<open>self.results = ...
self.current_result_index = 0
if not self.results:
    self.result_display.setText("No results found.")
else:
    self.show_current_chunk()\<close>
\<close>

definition set_results :: "chunk list \<Rightarrow> (nat \<times> real) list \<Rightarrow> search_app \<Rightarrow> pyerror + search_app" where
  "set_results corpus ranking app =
     (let app = app\<lparr> results := ranking, current_result_index := 0 \<rparr>
      in if results app = [] then Inr (app\<lparr> result_display := Message ''No results found.'' \<rparr>)
         else show_current_chunk corpus app)"

text \<open>\<open>re.findall(r"\w+", raw_query)\<close>: the maximal runs of word characters.\<close>

definition findall_words :: "unicodedata \<Rightarrow> pystr \<Rightarrow> pystr list" where
  "findall_words U s = split_acc (\<lambda>c. \<not> isword U c) [] s"

text \<open>
  The reranking step of the BM25 branch. With "Embeddings rerank" selected and fastembed
  missing, a message is shown and the truncated ranking is kept.
\<close>

definition rerank :: "unicodedata \<Rightarrow> fastembed \<Rightarrow> 'model globals \<Rightarrow> rerank_method \<Rightarrow> pystr list \<Rightarrow>
    pystr \<Rightarrow> (nat \<times> real) list \<Rightarrow> pyerror + (nat \<times> real) list" where
  "rerank U X G method the_query_terms raw_query truncated_ranking =
     (case method of
        No_reranking \<Rightarrow> Inr truncated_ranking
      | Minimal_span_based_scoring \<Rightarrow>
          rerank_minimal_span U (GLOBAL_CORPUS G) truncated_ranking the_query_terms
      | Exact_text_search \<Rightarrow> rerank_exact_text U (GLOBAL_CORPUS G) truncated_ranking raw_query
      | Embeddings_rerank \<Rightarrow>
          if \<not> FASTEMBED_AVAILABLE G then Inr truncated_ranking
          else rerank_with_embeddings X (GLOBAL_CORPUS G) truncated_ranking raw_query)"

text \<open>
  \<open>SearchApp.search\<close>. The globals are read only; the application object is returned
  updated. An uncaught exception is \<open>Inl\<close>.
\<close>

definition search :: "unicodedata \<Rightarrow> ('tok, 'model) bm25s \<Rightarrow> fastembed \<Rightarrow> 'model globals \<Rightarrow>
    search_app \<Rightarrow> pyerror + search_app" where
  "search U L X G app0 =
     (let raw_query = strip U (query_input app0);
          app = app0\<lparr> query_terms :=
                  map (\<lambda>w. remove_accents U (lower U w)) (findall_words U raw_query) \<rparr>
      in if GLOBAL_CORPUS G = [] then Inr (app\<lparr> result_display := Message ''No corpus loaded.'' \<rparr>)
         else if raw_query = []
         then Inr (app\<lparr> result_display := Message ''Please enter a search query.'' \<rparr>)
         else (case search_method_combo app of
            Simple_text_search \<Rightarrow>
              set_results (GLOBAL_CORPUS G) (simple_text_search U (GLOBAL_CORPUS G) raw_query) app
          | Embeddings_search \<Rightarrow>
              if \<not> embeddings_present app
              then Inr (app\<lparr> result_display := Message ''No .emb files found. Reverting to BM25 search.'',
                             search_method_combo := BM25 \<rparr>)
              else (case GLOBAL_EMBED_MODEL G of
                 None \<Rightarrow>
                   Inr (app\<lparr> result_display :=
                               Message ''FastEmbed library not available. Reverting to BM25 search.'',
                             search_method_combo := BM25 \<rparr>)
               | Some query_embed \<Rightarrow>
                   if \<not> FASTEMBED_AVAILABLE G
                   then Inr (app\<lparr> result_display :=
                               Message ''FastEmbed library not available. Reverting to BM25 search.'',
                             search_method_combo := BM25 \<rparr>)
                   else (case embeddings_search U (GLOBAL_CORPUS G) (query_embed raw_query) of
                           Inl e \<Rightarrow> Inl e
                         | Inr penalized_scores \<Rightarrow> set_results (GLOBAL_CORPUS G) penalized_scores app))
          | BM25 \<Rightarrow>
              (case GLOBAL_BM25_MODEL G of
                 None \<Rightarrow> Inr (app\<lparr> result_display := Message ''No BM25 model is available.'' \<rparr>)
               | Some model \<Rightarrow>
                   (case bm25_retrieval L model (GLOBAL_CORPUS G) raw_query of
                      Inl e \<Rightarrow> Inl e
                    | Inr truncated_ranking \<Rightarrow>
                        (case rerank U X G (rerank_combo app) (query_terms app) raw_query
                                truncated_ranking of
                           Inl e \<Rightarrow> Inl e
                         | Inr final_ranking \<Rightarrow> set_results (GLOBAL_CORPUS G) final_ranking app)))))"

section \<open>Loading the corpus and the embeddings\<close>

text \<open>
  One entry of \<open>all_json_files\<close> with what the file system holds for it. The \<open>.json\<close>
  file is read twice, by \<open>load_corpus_and_initialize_bm25\<close> and again by
  \<open>load_embeddings_for_corpus\<close>, and reads the same way each time. The first pass keeps
  its records only if the whole \<open>try\<close> block succeeds:
  \<^verbatim>\<open>try:
    with open(file_path, "r", encoding="utf-8") as json_file:
        docs = json.load(json_file)
    folder_of_json = os.path.dirname(file_path)
    for doc in docs:
        pdf_name = doc.get('filename', '')
        if pdf_name and not os.path.isabs(pdf_name):
            doc['filename'] = os.path.join(folder_of_json, pdf_name)
    GLOBAL_CORPUS.extend(docs)
except Exception as e:
    error_messages.append(f"Error reading {file_path}: {e}")\<close>
  The second pass only catches a failure of the read and then takes the length:
  \<^verbatim>\<open>try:
    with open(file_path, "r", encoding="utf-8") as j:
        pages_in_json = json.load(j)
except:
    pages_in_json = []
num_pages = len(pages_in_json)\<close>
  So a file is one of four kinds:
  \<^item> \<open>Unreadable\<close>: opening or parsing raises; no records, length 0;
  \<^item> \<open>Records docs\<close>: a list of JSON objects whose \<open>filename\<close>, if any, is a string;
    the first pass appends \<open>docs\<close> to the corpus, the second counts them;
  \<^item> \<open>Sized_bad n\<close>: the file parses but the loop of the first pass raises, as for a
    top-level object with \<open>n\<close> keys, a top-level string of \<open>n\<close> characters or a list of
    \<open>n\<close> values one of which is not such an object; the first pass drops the file, the
    second counts \<open>n\<close>;
  \<^item> \<open>Not_sized\<close>: the top-level value is a number, a truth value or \<open>null\<close>; the first
    pass drops the file and \<open>len\<close> raises in the second.

  The sibling \<open>.emb\<close> file is absent, unreadable, or a list of objects each of which may
  carry the key \<open>'embedding'\<close>. Making \<open>filename\<close> absolute does not touch the fields
  modelled here, and the conversion of an embedding to a \<open>float32\<close> array is the identity
  on the idealised reals.
\<close>

datatype json_file = Unreadable | Records "chunk list" | Sized_bad nat | Not_sized

datatype emb_file = No_emb_file | Unreadable_emb | Emb_records "real list option list"

record source_unit =
  json_source :: json_file
  emb_source :: emb_file

text \<open>What the first pass appends to the corpus, and \<open>len(pages_in_json)\<close> of the second.\<close>

definition pages_of :: "source_unit \<Rightarrow> chunk list" where
  "pages_of u = (case json_source u of Records docs \<Rightarrow> docs | _ \<Rightarrow> [])"

definition num_pages_of :: "source_unit \<Rightarrow> pyerror + nat" where
  "num_pages_of u =
     (case json_source u of
        Unreadable \<Rightarrow> Inr 0
      | Records docs \<Rightarrow> Inr (length docs)
      | Sized_bad n \<Rightarrow> Inr n
      | Not_sized \<Rightarrow> Inl TypeError)"

text \<open>
  \<^verbatim>\<open>for i in range(min_len):
    doc = GLOBAL_CORPUS[corpus_index + i]
    if 'embedding' in pages_with_emb[i]:
        doc['embedding'] = np.array(pages_with_emb[i]['embedding'], dtype=np.float32)
        emb_count += 1\<close>
\<close>

fun attach_loop :: "nat \<Rightarrow> real list option list \<Rightarrow> nat list \<Rightarrow> chunk list \<times> nat \<Rightarrow>
    pyerror + (chunk list \<times> nat)" where
  "attach_loop corpus_index pages_with_emb [] (corpus, emb_count) = Inr (corpus, emb_count)"
| "attach_loop corpus_index pages_with_emb (i # rest) (corpus, emb_count) =
     (if length corpus \<le> corpus_index + i then Inl IndexError
      else (case pages_with_emb ! i of
              Some e \<Rightarrow>
                attach_loop corpus_index pages_with_emb rest
                  (corpus[corpus_index + i := (corpus ! (corpus_index + i))\<lparr> doc_embedding := Some e \<rparr>],
                   emb_count + 1)
            | None \<Rightarrow> attach_loop corpus_index pages_with_emb rest (corpus, emb_count)))"

text \<open>
  \<^verbatim>\<open>def load_embeddings_for_corpus(json_file_list):
    emb_count = 0
    corpus_index = 0
    for file_path in json_file_list:
        ...
        num_pages = len(pages_in_json)
        if not os.path.exists(emb_file_path):
            corpus_index += num_pages
            continue
        ...
        if len(pages_in_json) != len(pages_with_emb):
            print(f"Warning: mismatch in #pages for {file_path} vs {emb_file_path}")
            min_len = min(len(pages_in_json), len(pages_with_emb))
        else:
            min_len = len(pages_in_json)
        for i in range(min_len): ...
        corpus_index += num_pages
    print(f"Loaded embeddings for {emb_count} pages total.")\<close>
  The state of the loop is the corpus, \<open>corpus_index\<close>, \<open>emb_count\<close> and the list of the
  positions (in \<open>json_file_list\<close>) of the files for which the warning was printed.
\<close>

record load_state =
  ls_corpus :: "chunk list"
  corpus_index :: nat
  emb_count :: nat
  warnings :: "nat list"

fun load_embeddings_loop :: "(nat \<times> source_unit) list \<Rightarrow> load_state \<Rightarrow> pyerror + load_state" where
  "load_embeddings_loop [] st = Inr st"
| "load_embeddings_loop ((file_no, u) # rest) st =
     (case num_pages_of u of
        Inl e \<Rightarrow> Inl e
      | Inr num_pages \<Rightarrow>
          (case emb_source u of
             No_emb_file \<Rightarrow>
               load_embeddings_loop rest (st\<lparr> corpus_index := corpus_index st + num_pages \<rparr>)
           | other \<Rightarrow>
               (let pages_with_emb = (case other of Emb_records rs \<Rightarrow> rs | _ \<Rightarrow> []);
                    mismatch = (num_pages \<noteq> length pages_with_emb);
                    min_len = (if mismatch then min num_pages (length pages_with_emb)
                               else num_pages)
                in case attach_loop (corpus_index st) pages_with_emb [0..<min_len]
                          (ls_corpus st, emb_count st) of
                     Inl e \<Rightarrow> Inl e
                   | Inr (corpus, cnt) \<Rightarrow>
                       load_embeddings_loop rest
                         (st\<lparr> ls_corpus := corpus, emb_count := cnt,
                              corpus_index := corpus_index st + num_pages,
                              warnings := (if mismatch then warnings st @ [file_no] else warnings st) \<rparr>))))"

definition load_embeddings_for_corpus :: "chunk list \<Rightarrow> source_unit list \<Rightarrow> pyerror + load_state" where
  "load_embeddings_for_corpus corpus json_file_list =
     load_embeddings_loop (enumerate 0 json_file_list)
       \<lparr> ls_corpus = corpus, corpus_index = 0, emb_count = 0, warnings = [] \<rparr>"

text \<open>
  \<open>load_corpus_and_initialize_bm25\<close>, from the list \<open>all_json_files\<close> on (the scan of the
  folders that produces the list is file-system work). The result is the corpus, the
  model, the files warned about and the status message; an exception that leaves the
  function is \<open>Inl\<close>:
  \<^verbatim>\<open>if not all_json_files:
    return error_messages, "No JSON files found in the selected folders."
for file_path in all_json_files:
    try:
        docs = json.load(json_file)
        ...
        GLOBAL_CORPUS.extend(docs)
    except Exception as e:
        error_messages.append(f"Error reading {file_path}: {e}")
if not GLOBAL_CORPUS:
    return error_messages, "No documents found in any JSON file."
texts = [doc['text'] for doc in GLOBAL_CORPUS if 'text' in doc]
if texts:
    GLOBAL_BM25_MODEL = bm25s.BM25()
    tokenized_corpus = bm25s.tokenize(texts, stopwords="en")
    GLOBAL_BM25_MODEL.index(tokenized_corpus)
else:
    return error_messages, "No textual data to build BM25 model."
load_embeddings_for_corpus(all_json_files)
return error_messages, "BM25 model successfully initialized."\<close>
\<close>

definition bm25_texts :: "chunk list \<Rightarrow> pystr list" where
  "bm25_texts corpus = map (\<lambda>doc. the (doc_text doc)) (filter (\<lambda>doc. doc_text doc \<noteq> None) corpus)"

definition load_corpus_and_initialize_bm25 :: "('tok, 'model) bm25s \<Rightarrow> source_unit list \<Rightarrow>
    pyerror + (chunk list \<times> 'model option \<times> nat list \<times> string)" where
  "load_corpus_and_initialize_bm25 L all_json_files =
     (if all_json_files = [] then Inr ([], None, [], ''No JSON files found in the selected folders.'')
      else (let corpus = concat (map pages_of all_json_files)
            in if corpus = [] then Inr ([], None, [], ''No documents found in any JSON file.'')
               else (let texts = bm25_texts corpus
                     in if texts \<noteq> []
                        then (let tokenized_corpus = tokenize L texts
                              in case index L tokenized_corpus of
                                   Inl e \<Rightarrow> Inl e
                                 | Inr model \<Rightarrow>
                                     (case load_embeddings_for_corpus corpus all_json_files of
                                        Inl e \<Rightarrow> Inl e
                                      | Inr st \<Rightarrow>
                                          Inr (ls_corpus st, Some model, warnings st,
                                               ''BM25 model successfully initialized.'')))
                        else Inr (corpus, None, [], ''No textual data to build BM25 model.''))))"

text \<open>
  After a load the application records whether any chunk carries an embedding:
  \<^verbatim>\<open>self.embeddings_present = any(('embedding' in doc) for doc in GLOBAL_CORPUS)\<close>
\<close>

definition any_embedding :: "chunk list \<Rightarrow> bool" where
  "any_embedding corpus = list_ex (\<lambda>doc. doc_embedding doc \<noteq> None) corpus"

section \<open>Notions used to state the behaviour of embeddings search\<close>

text \<open>
  A chunk takes part in embeddings search when it carries an embedding and its text is not
  blank, that is, not empty after stripping whitespace.
\<close>

definition scored :: "unicodedata \<Rightarrow> chunk \<Rightarrow> bool" where
  "scored U doc = (doc_embedding doc \<noteq> None \<and> strip U (get_text doc) \<noteq> [])"

definition raw_score :: "real list \<Rightarrow> chunk \<Rightarrow> real" where
  "raw_score query_embedding doc =
     sum_list (map (\<lambda>(x, y). x * y) (zip (the (doc_embedding doc)) query_embedding))"

definition final_score :: "real list \<Rightarrow> chunk \<Rightarrow> real" where
  "final_score query_embedding doc =
     raw_score query_embedding doc * sqrt (real (length (get_text doc)))"

definition dims_agree :: "unicodedata \<Rightarrow> chunk list \<Rightarrow> real list \<Rightarrow> bool" where
  "dims_agree U corpus query_embedding =
     (\<forall>doc \<in> set corpus. scored U doc \<longrightarrow>
        length (the (doc_embedding doc)) = length query_embedding)"

section \<open>Orderings of a ranking and example data\<close>

text \<open>A ranking is in descending order of score.\<close>

definition descending :: "(nat \<times> real) list \<Rightarrow> bool" where
  "descending ranking = sorted_wrt (\<lambda>a b. snd b \<le> snd a) ranking"

text \<open>
  A ranking is in descending order of score with equal scores in ascending order of chunk id.
\<close>

definition descending_then_id :: "(nat \<times> real) list \<Rightarrow> bool" where
  "descending_then_id ranking =
     sorted_wrt (\<lambda>a b. snd b < snd a \<or> (snd b = snd a \<and> fst a \<le> fst b)) ranking"

text \<open>
  A stand-in for the library on a corpus of two chunks with the same text: both chunks get
  the same score and the library lists the second chunk first.
\<close>

definition tie_library :: "(pystr list, unit) bm25s" where
  "tie_library = \<lparr> tokenize = (\<lambda>texts. texts), index = (\<lambda>tokens. Inr ()),
                    retrieve = (\<lambda>model q k. Inr ([1, 0], [2, 2])) \<rparr>"

definition tie_corpus :: "chunk list" where
  "tie_corpus =
     [\<lparr> doc_text = Some (str ''dog''), doc_embedding = None \<rparr>,
      \<lparr> doc_text = Some (str ''dog''), doc_embedding = None \<rparr>]"

text \<open>A corpus of 51 chunks that all contain the letter a.\<close>

definition letter_chunk :: chunk where
  "letter_chunk = \<lparr> doc_text = Some (str ''a''), doc_embedding = None \<rparr>"

definition large_corpus :: "chunk list" where
  "large_corpus = replicate 51 letter_chunk"

text \<open>
  An installation without fastembed, the two-chunk corpus loaded, and an application
  object in which the user has typed the query and selected "Embeddings search".
\<close>

definition no_fastembed :: fastembed where
  "no_fastembed = \<lparr> cross_encoder_rerank = (\<lambda>q documents. []) \<rparr>"

definition tie_globals :: "unit globals" where
  "tie_globals = \<lparr> GLOBAL_CORPUS = tie_corpus, GLOBAL_BM25_MODEL = Some (),
                    GLOBAL_EMBED_MODEL = None, FASTEMBED_AVAILABLE = False \<rparr>"

definition emb_request :: search_app where
  "emb_request = \<lparr> query_input = str ''dog'', search_method_combo = Embeddings_search,
                    rerank_combo = No_reranking, embeddings_present = False, results = [],
                    current_result_index = 0, query_terms = [], result_display = Message [] \<rparr>"

definition emb_fallback :: search_app where
  "emb_fallback = \<lparr> query_input = str ''dog'', search_method_combo = BM25,
                     rerank_combo = No_reranking, embeddings_present = False, results = [],
                     current_result_index = 0, query_terms = [str ''dog''],
                     result_display = Message ''No .emb files found. Reverting to BM25 search.'' \<rparr>"

definition bm25_answer :: search_app where
  "bm25_answer = \<lparr> query_input = str ''dog'', search_method_combo = BM25,
                    rerank_combo = No_reranking, embeddings_present = False,
                    results = [(1, 2), (0, 2)],
                    current_result_index = 0, query_terms = [str ''dog''],
                    result_display = Chunk_view 1 \<rparr>"

text \<open>A chunk whose text is a single space and that carries an embedding.\<close>

definition blank_corpus :: "chunk list" where
  "blank_corpus = [\<lparr> doc_text = Some (str '' ''), doc_embedding = Some [1] \<rparr>]"

text \<open>
  Three chunks with embeddings: chunk 0 has the larger dot product with the query vector
  \<open>[1, 0]\<close>, chunk 1 the longer text, chunk 2 is blank.
\<close>

definition vector_corpus :: "chunk list" where
  "vector_corpus =
     [\<lparr> doc_text = Some (str ''a''), doc_embedding = Some [3, 0] \<rparr>,
      \<lparr> doc_text = Some (str ''abcd''), doc_embedding = Some [2, 5] \<rparr>,
      \<lparr> doc_text = Some (str ''  ''), doc_embedding = Some [9, 9] \<rparr>]"

section \<open>Notions used to state the alignment of embeddings\<close>

text \<open>
  The embedding records of a unit (none when there is no readable \<open>.emb\<close> file), a chunk
  with the embedding of a record attached, and the chunks of a unit after alignment by
  position: the first \<open>min text_count embedding_count\<close> chunks paired with the records at the
  same positions, the remaining chunks as they were.
\<close>

definition emb_records :: "source_unit \<Rightarrow> real list option list" where
  "emb_records u = (case emb_source u of Emb_records rs \<Rightarrow> rs | _ \<Rightarrow> [])"

definition attach :: "chunk \<Rightarrow> real list option \<Rightarrow> chunk" where
  "attach doc r = (case r of Some e \<Rightarrow> doc\<lparr> doc_embedding := Some e \<rparr> | None \<Rightarrow> doc)"

definition attached :: "chunk list \<Rightarrow> real list option list \<Rightarrow> chunk list" where
  "attached ps rs = map (\<lambda>(d, r). attach d r) (zip ps rs) @ drop (length rs) ps"

definition attach_unit :: "source_unit \<Rightarrow> chunk list" where
  "attach_unit u = attached (pages_of u) (emb_records u)"

text \<open>
  A unit whose \<open>.json\<close> file both passes treat alike: it is unreadable for both, or its
  records enter the corpus and are counted.
\<close>

definition read_alike :: "source_unit \<Rightarrow> bool" where
  "read_alike u = (case json_source u of Unreadable \<Rightarrow> True | Records docs \<Rightarrow> True | _ \<Rightarrow> False)"

definition mismatch :: "source_unit \<Rightarrow> bool" where
  "mismatch u = (emb_source u \<noteq> No_emb_file \<and> length (pages_of u) \<noteq> length (emb_records u))"

text \<open>
  Example: a unit of five pages with an embedding file of three records, followed by a
  unit of one page with a matching embedding file.
\<close>

definition page :: "string \<Rightarrow> chunk" where
  "page s = \<lparr> doc_text = Some (str s), doc_embedding = None \<rparr>"

definition page_with :: "string \<Rightarrow> real list \<Rightarrow> chunk" where
  "page_with s e = \<lparr> doc_text = Some (str s), doc_embedding = Some e \<rparr>"

definition five_three :: "source_unit list" where
  "five_three =
     [\<lparr> json_source = Records [page ''p1'', page ''p2'', page ''p3'', page ''p4'', page ''p5''],
        emb_source = Emb_records [Some [1], Some [2], Some [3]] \<rparr>,
      \<lparr> json_source = Records [page ''q1''], emb_source = Emb_records [Some [7]] \<rparr>]"

text \<open>
  Example: a folder in which a JSON file that is no list of chunks, here an object with
  two keys such as \<^verbatim>\<open>{"a": 1, "b": 2}\<close>, is listed before the five pages with their three
  embedding records; and the same with an object of three keys.
\<close>

definition stray_units :: "source_unit list" where
  "stray_units =
     [\<lparr> json_source = Sized_bad 2, emb_source = No_emb_file \<rparr>,
      \<lparr> json_source = Records [page ''p1'', page ''p2'', page ''p3'', page ''p4'', page ''p5''],
        emb_source = Emb_records [Some [1], Some [2], Some [3]] \<rparr>]"

definition stray_units_three :: "source_unit list" where
  "stray_units_three =
     [\<lparr> json_source = Sized_bad 3, emb_source = No_emb_file \<rparr>,
      \<lparr> json_source = Records [page ''p1'', page ''p2'', page ''p3'', page ''p4'', page ''p5''],
        emb_source = Emb_records [Some [1], Some [2], Some [3]] \<rparr>]"

section \<open>Example data for tokenization\<close>

text \<open>
  An instance of the Unicode tables that also knows the letter e with acute accent:
  code point 233 (small) and 201 (capital) decompose into the base letter followed by the
  combining acute accent 769, whose combining class is 230.
\<close>

definition latin_lower :: "pystr \<Rightarrow> pystr" where
  "latin_lower s = map (\<lambda>c. if c = 201 then 233 else if 65 \<le> c \<and> c \<le> 90 then c + 32 else c) s"

definition latin_NFD :: "pystr \<Rightarrow> pystr" where
  "latin_NFD s = concat (map (\<lambda>c. if c = 233 then [101, 769] else if c = 201 then [69, 769] else [c]) s)"

definition latin :: unicodedata where
  "latin = \<lparr> lower = latin_lower, normalize_NFD = latin_NFD,
             combining = (\<lambda>c. if c = 769 then 230 else 0),
             isspace = ascii_isspace, isword = (\<lambda>c. ascii_isword c \<or> c = 233 \<or> c = 201) \<rparr>"

text \<open>
  The query \<open>CAF\<close> followed by capital E with acute accent, and a corpus in which chunk 0
  spells the word in lower case without accent, chunk 1 does not have it, and chunk 2 spells
  it with the small accented letter.
\<close>

definition cafe_capital_acute :: pystr where
  "cafe_capital_acute = str ''CAF'' @ [201]"

definition accent_corpus :: "chunk list" where
  "accent_corpus =
     [\<lparr> doc_text = Some (str ''le cafe noir''), doc_embedding = None \<rparr>,
      \<lparr> doc_text = Some (str ''tea''), doc_embedding = None \<rparr>,
      \<lparr> doc_text = Some (str ''Un caf'' @ [233] @ str '' au lait''), doc_embedding = None \<rparr>]"

text \<open>
  A corpus for phrase queries: chunk 0 holds only the phrase, chunk 1 the phrase and the
  word in capitals without accent, chunk 2 the phrase and the word with the capital
  accented letter.
\<close>

definition accent_phrase_corpus :: "chunk list" where
  "accent_phrase_corpus =
     [\<lparr> doc_text = Some (str ''An Exact Phrase only''), doc_embedding = None \<rparr>,
      \<lparr> doc_text = Some (str ''CAFE and an exact phrase''), doc_embedding = None \<rparr>,
      \<lparr> doc_text = Some (str ''the EXACT PHRASE in a CAF'' @ [201]), doc_embedding = None \<rparr>]"

text \<open>The query \<open>caf\<close> followed by e with acute accent.\<close>

definition cafe_acute :: pystr where
  "cafe_acute = str ''caf'' @ [233]"

text \<open>
  A stand-in for the library whose tokenizer lower-cases and splits on whitespace and does
  nothing about diacritics, and whose score of a document is the number of query tokens
  that occur in it.
\<close>

definition overlap_library :: "(pystr list list, pystr list list) bm25s" where
  "overlap_library =
     \<lparr> tokenize = map (\<lambda>t. split latin (latin_lower t)),
       index = (\<lambda>tokens. Inr tokens),
       retrieve = (\<lambda>model q k.
          Inr ([0..<length model],
               map (\<lambda>d. real (length (filter (\<lambda>t. t \<in> set d) (concat q)))) model)) \<rparr>"

definition cafe_upper_units :: "source_unit list" where
  "cafe_upper_units = [\<lparr> json_source = Records [page ''Le CAFE''], emb_source = No_emb_file \<rparr>]"

definition cafe_lower_units :: "source_unit list" where
  "cafe_lower_units = [\<lparr> json_source = Records [page ''le cafe''], emb_source = No_emb_file \<rparr>]"

section \<open>What is assumed of the BM25 library\<close>


definition lowercasing :: "unicodedata \<Rightarrow> ('tok, 'model) bm25s \<Rightarrow> bool" where
  "lowercasing U L \<longleftrightarrow> (\<forall>texts. tokenize L (map (lower U) texts) = tokenize L texts)"

text \<open>
  The texts the index is built from, written without reference to the program:
  the \<open>'text'\<close> fields that are present, in corpus order.
\<close>

definition present_texts :: "chunk list \<Rightarrow> pystr list" where
  "present_texts corpus = List.map_filter doc_text corpus"



definition no_text_units :: "source_unit list" where
  "no_text_units =
     [\<lparr> json_source = Records [\<lparr> doc_text = None, doc_embedding = None \<rparr>, page ''green tea''],
        emb_source = No_emb_file \<rparr>]"

section \<open>Properties\<close>

subsection \<open>Exact text rerank\<close>

lemma norm_text_spec: "norm_text U s = case_folded_accent_stripped U s"
  by (simp add: norm_text_def remove_accents_def case_folded_accent_stripped_def)

lemma exact_loop_partition:
  assumes "list_all (has_text corpus) top_docs"
  shows "exact_loop U corpus (norm_text U q) top_docs matched unmatched =
           Inr (matched @ filter (contains_query U corpus q) top_docs,
                unmatched @ filter (\<lambda>c. \<not> contains_query U corpus q c) top_docs)"
  using assms
proof (induction top_docs arbitrary: matched unmatched)
  case Nil
  then show ?case by simp
next
  case (Cons c rest)
  obtain doc_id s where c: "c = (doc_id, s)" by (cases c)
  from Cons.prems c obtain t where t: "doc_id < length corpus" "doc_text (corpus ! doc_id) = Some t"
    by (auto simp: has_text_def)
  have rest: "list_all (has_text corpus) rest" using Cons.prems by simp
  have ct: "corpus_text corpus doc_id = Inr t" using t by (simp add: corpus_text_def)
  have cq: "contains_query U corpus q c \<longleftrightarrow> str_in (norm_text U q) (norm_text U t)"
    using t by (simp add: contains_query_def c str_in_def norm_text_spec)
  show ?case
    using Cons.IH[OF rest] ct cq by (simp add: c norm_text_def)
qed

lemma exact_loop_error:
  assumes "\<not> list_all (has_text corpus) top_docs"
  shows "\<exists>e. exact_loop U corpus qn top_docs matched unmatched = Inl e"
  using assms
proof (induction top_docs arbitrary: matched unmatched)
  case Nil
  then show ?case by simp
next
  case (Cons c rest)
  obtain doc_id s where c: "c = (doc_id, s)" by (cases c)
  show ?case
  proof (cases "has_text corpus c")
    case True
    then obtain t where "corpus_text corpus doc_id = Inr t"
      by (auto simp: has_text_def corpus_text_def c)
    moreover have "\<not> list_all (has_text corpus) rest" using Cons.prems True by simp
    ultimately show ?thesis using Cons.IH by (simp add: c Let_def)
  next
    case False
    then have "\<exists>e. corpus_text corpus doc_id = Inl e"
      by (auto simp: has_text_def corpus_text_def c split: option.splits)
    then show ?thesis by (auto simp: c)
  qed
qed

text \<open>
  C9. On a candidate list whose ids all address chunks that have a text, the exact-text
  rerank returns the candidates whose case-folded, accent-stripped text contains the
  case-folded, accent-stripped query as a contiguous substring, in their original order,
  followed by all other candidates in their original order; every (chunk id, score) pair is
  kept as it is. (On any other candidate list the lookup of the text raises.)
\<close>

theorem rerank_exact_text_stable_partition:
  "(list_all (has_text corpus) top_docs \<longrightarrow>
      rerank_exact_text U corpus top_docs q =
        Inr (filter (contains_query U corpus q) top_docs @
             filter (\<lambda>c. \<not> contains_query U corpus q c) top_docs)) \<and>
   (\<not> list_all (has_text corpus) top_docs \<longrightarrow>
      (\<exists>e. rerank_exact_text U corpus top_docs q = Inl e))"
proof (cases "list_all (has_text corpus) top_docs")
  case True
  show ?thesis
    using exact_loop_partition[OF True, of U q "[]" "[]"] True
    by (simp add: rerank_exact_text_def norm_text_def)
next
  case False
  from exact_loop_error[OF False] obtain e where
    "exact_loop U corpus (remove_accents U (lower U q)) top_docs [] [] = Inl e" by blast
  then show ?thesis using False by (simp add: rerank_exact_text_def)
qed

lemma accent_corpus_has_text:
  "list_all (has_text accent_corpus) [(1, 3), (0, 2), (2, 1)]"
  by (simp add: has_text_def accent_corpus_def)

lemma accent_corpus_contains:
  "contains_query latin accent_corpus cafe_capital_acute (0, 2)"
  "\<not> contains_query latin accent_corpus cafe_capital_acute (1, 3)"
  "contains_query latin accent_corpus cafe_capital_acute (2, 1)"
  by code_simp+

theorem rerank_exact_text_stable_partition_witness:
  "list_all (has_text accent_corpus) [(1, 3), (0, 2), (2, 1)] \<and>
   rerank_exact_text latin accent_corpus [(1, 3), (0, 2), (2, 1)] cafe_capital_acute =
     Inr [(0, 2), (2, 1), (1, 3)]"
  using rerank_exact_text_stable_partition
          [of accent_corpus "[(1, 3), (0, 2), (2, 1)]" latin cafe_capital_acute]
    accent_corpus_has_text accent_corpus_contains
  by simp

subsection \<open>Simple text search\<close>

lemma parse_loop_fst_snd:
  "parse_loop ms qp uw =
     (qp @ map fst (filter (\<lambda>m. fst m \<noteq> []) ms),
      uw @ map snd (filter (\<lambda>m. fst m = [] \<and> snd m \<noteq> []) ms))"
  by (induction ms qp uw rule: parse_loop.induct) auto

lemma simple_loop_step:
  "simple_loop U qp uw ((idx, doc) # rest) =
     (if (\<forall>p \<in> set qp. sublist p (chunk_norm_text U doc)) \<and>
         (\<forall>w \<in> set uw. sublist w (chunk_norm_text U doc))
      then idx # simple_loop U qp uw rest else simple_loop U qp uw rest)"
proof -
  have "(case doc_text doc of Some t \<Rightarrow> remove_accents U (lower U t) | None \<Rightarrow> []) =
        chunk_norm_text U doc"
    by (cases "doc_text doc") (simp_all add: chunk_norm_text_def norm_text_def)
  then show ?thesis
    by (simp add: Let_def str_in_def list_all_iff)
qed

lemma simple_loop_filter:
  "simple_loop U qp uw ixs =
     map fst (filter (\<lambda>(idx, doc).
        (\<forall>p \<in> set qp. sublist p (chunk_norm_text U doc)) \<and>
        (\<forall>w \<in> set uw. sublist w (chunk_norm_text U doc))) ixs)"
proof (induction ixs)
  case Nil
  then show ?case by simp
next
  case (Cons a ixs)
  obtain idx doc where a: "a = (idx, doc)" by (cases a)
  show ?case unfolding a simple_loop_step using Cons.IH by simp
qed

lemma enumerate_filter_nth:
  "map fst (filter (\<lambda>(idx, doc). P doc) (enumerate n xs)) =
   filter (\<lambda>i. P (xs ! (i - n))) [n..<n + length xs]"
proof (induction xs arbitrary: n)
  case Nil
  then show ?case by simp
next
  case (Cons x xs)
  have "\<And>i. i \<in> set [Suc n..<Suc n + length xs] \<Longrightarrow> (x # xs) ! (i - n) = xs ! (i - Suc n)"
  proof -
    fix i assume "i \<in> set [Suc n..<Suc n + length xs]"
    then have "i - n = Suc (i - Suc n)" by auto
    then show "(x # xs) ! (i - n) = xs ! (i - Suc n)" by simp
  qed
  then have eq: "filter (\<lambda>i. P ((x # xs) ! (i - n))) [Suc n..<Suc n + length xs] =
        filter (\<lambda>i. P (xs ! (i - Suc n))) [Suc n..<Suc n + length xs]"
    by (intro filter_cong) auto
  have up: "[n..<n + length (x # xs)] = n # [Suc n..<Suc n + length xs]"
    using upt_conv_Cons[of n "Suc (n + length xs)"] by simp
  show ?case
    unfolding up using Cons.IH[of "Suc n"] eq by simp
qed

lemma simple_text_search_filter:
  "simple_text_search U corpus q =
     map (\<lambda>i. (i, 1)) (filter (\<lambda>i. code_matches U q (corpus ! i)) [0..<length corpus])"
proof -
  obtain qp uw where p: "parse_simple_search_query U q = (qp, uw)"
    by (cases "parse_simple_search_query U q")
  have "simple_text_search U corpus q =
        map (\<lambda>i. (i, 1)) (map fst (filter (\<lambda>(idx, doc).
          (\<forall>p \<in> set (map (norm_text U) qp). sublist p (chunk_norm_text U doc)) \<and>
          (\<forall>w \<in> set (map (norm_text U) uw). sublist w (chunk_norm_text U doc)))
          (enumerate 0 corpus)))"
    by (simp add: simple_text_search_def p simple_loop_filter norm_text_def[abs_def])
  also have "\<dots> = map (\<lambda>i. (i, 1)) (filter (\<lambda>i. code_matches U q (corpus ! i)) [0..<length corpus])"
    using enumerate_filter_nth[of "\<lambda>doc. (\<forall>p \<in> set (map (norm_text U) qp). sublist p (chunk_norm_text U doc)) \<and>
          (\<forall>w \<in> set (map (norm_text U) uw). sublist w (chunk_norm_text U doc))" 0 corpus]
    by (simp add: code_matches_def p)
  finally show ?thesis .
qed

text \<open>
  What the parse yields: a query without quote characters is split on whitespace into
  words, and a leading non-empty quoted run is a phrase.
\<close>

lemma split_acc_run:
  "cur \<noteq> [] \<Longrightarrow>
     split_acc sp cur s =
       (rev cur @ takeWhile (\<lambda>x. \<not> sp x) s) # split_acc sp [] (dropWhile (\<lambda>x. \<not> sp x) s)"
proof (induction s arbitrary: cur)
  case Nil
  then show ?case by simp
next
  case (Cons c cs)
  then show ?case by (cases "sp c") simp_all
qed

lemma split_acc_start:
  "split_acc sp [] (c # cs) =
     (if sp c then split_acc sp [] cs
      else (c # takeWhile (\<lambda>x. \<not> sp x) cs) # split_acc sp [] (dropWhile (\<lambda>x. \<not> sp x) cs))"
  using split_acc_run[of "[c]" sp cs] by simp

lemma findall_no_quotes:
  "34 \<notin> set s \<Longrightarrow> findall_pattern sp s = map (\<lambda>w. ([], w)) (split_acc sp [] s)"
proof (induction sp s rule: findall_pattern.induct)
  case (1 sp)
  then show ?case by simp
next
  case (2 sp c cs)
  from "2.prems" have c: "c \<noteq> 34" and cs: "34 \<notin> set cs" by auto
  show ?case
  proof (cases "sp c")
    case True
    with c have "findall_pattern sp (c # cs) = findall_pattern sp cs" by simp
    moreover have "findall_pattern sp cs = map (\<lambda>w. ([], w)) (split_acc sp [] cs)"
      using "2.IH"(3) c True cs by simp
    ultimately show ?thesis using True by (simp only: split_acc_start if_True)
  next
    case False
    have "34 \<notin> set (dropWhile (\<lambda>x. \<not> sp x) cs)"
      using cs set_dropWhileD by fastforce
    then have "findall_pattern sp (dropWhile (\<lambda>x. \<not> sp x) cs) =
        map (\<lambda>w. ([], w)) (split_acc sp [] (dropWhile (\<lambda>x. \<not> sp x) cs))"
      using "2.IH"(2) c False by simp
    moreover have "findall_pattern sp (c # cs) =
        ([], c # takeWhile (\<lambda>x. \<not> sp x) cs) # findall_pattern sp (dropWhile (\<lambda>x. \<not> sp x) cs)"
      using c False by simp
    ultimately show ?thesis using False by (simp only: split_acc_start if_False list.map)
  qed
qed

lemma split_acc_nonempty_words: "[] \<notin> set (split_acc sp cur s)"
  by (induction s arbitrary: cur) auto

lemma parse_no_quotes:
  assumes "34 \<notin> set q"
  shows "parse_simple_search_query U q = ([], split U q)"
proof -
  let ?ws = "split_acc (isspace U) [] q"
  have "filter (\<lambda>w. w \<noteq> []) ?ws = ?ws"
    using split_acc_nonempty_words[of "isspace U" "[]" q] by (auto simp: filter_id_conv)
  then show ?thesis
    by (simp add: parse_simple_search_query_def Let_def findall_no_quotes[OF assms]
          parse_loop_fst_snd filter_map comp_def split_def)
qed

lemma findall_leading_phrase:
  assumes "p \<noteq> []" and "34 \<notin> set p"
  shows "findall_pattern sp (quoted p @ rest) = (p, []) # findall_pattern sp rest"
proof -
  have tw: "takeWhile (\<lambda>x. x \<noteq> 34) (p @ 34 # rest) = p"
    using assms(2) by (induction p) auto
  have dw: "dropWhile (\<lambda>x. x \<noteq> 34) (p @ 34 # rest) = 34 # rest"
    using assms(2) by (induction p) auto
  have "quoted p @ rest = 34 # (p @ 34 # rest)" by (simp add: quoted_def)
  then show ?thesis using assms(1) by (simp add: tw dw)
qed

lemma parse_leading_phrase:
  assumes "p \<noteq> []" and "34 \<notin> set p"
  shows "parse_simple_search_query U (quoted p @ rest) =
           (p # fst (parse_simple_search_query U rest), snd (parse_simple_search_query U rest))"
  using assms
  by (simp add: parse_simple_search_query_def Let_def findall_leading_phrase parse_loop_fst_snd)

text \<open>Where the parse of the code and the parse of the specification agree.\<close>

lemma last_dropWhile: "dropWhile P xs \<noteq> [] \<Longrightarrow> last (dropWhile P xs) = last xs"
  by (induction xs) auto

lemma length_filter_dropWhile: "length (filter P (dropWhile Q xs)) \<le> length (filter P xs)"
  by (induction xs) auto

lemma findall_outside:
  "34 \<notin> set b \<Longrightarrow> b = [] \<or> sp (last b) \<Longrightarrow>
     findall_pattern sp (b @ t) = map (\<lambda>w. ([], w)) (split_acc sp [] b) @ findall_pattern sp t"
proof (induction b rule: length_induct)
  case (1 b)
  have IH: "findall_pattern sp (ys @ t) = map (\<lambda>w. ([], w)) (split_acc sp [] ys) @ findall_pattern sp t"
    if "length ys < length b" "34 \<notin> set ys" "ys = [] \<or> sp (last ys)" for ys
    using "1.IH" that by blast
  show ?case
  proof (cases b)
    case Nil
    then show ?thesis by simp
  next
    case (Cons c cs)
    from "1.prems"(1) Cons have c: "c \<noteq> 34" and cs: "34 \<notin> set cs" by auto
    show ?thesis
    proof (cases "sp c")
      case True
      have "cs = [] \<or> sp (last cs)" using "1.prems"(2) Cons by (cases cs) auto
      with cs Cons have
        "findall_pattern sp (cs @ t) = map (\<lambda>w. ([], w)) (split_acc sp [] cs) @ findall_pattern sp t"
        by (intro IH) simp_all
      moreover have "findall_pattern sp (b @ t) = findall_pattern sp (cs @ t)"
        using c True Cons by simp
      moreover have "split_acc sp [] b = split_acc sp [] cs"
        using True Cons by (simp only: split_acc_start if_True)
      ultimately show ?thesis by simp
    next
      case False
      from "1.prems"(2) Cons False have ne: "cs \<noteq> []" and l: "sp (last cs)" by (cases cs; auto)+
      let ?d = "dropWhile (\<lambda>x. \<not> sp x) cs"
      from ne l have ex: "last cs \<in> set cs" "\<not> \<not> sp (last cs)" by simp_all
      have tw: "takeWhile (\<lambda>x. \<not> sp x) (cs @ t) = takeWhile (\<lambda>x. \<not> sp x) cs"
        using ex by (rule takeWhile_append1)
      have dw: "dropWhile (\<lambda>x. \<not> sp x) (cs @ t) = ?d @ t"
        using ex by (rule dropWhile_append1)
      have dne: "?d \<noteq> []" using ex by (auto simp: dropWhile_eq_Nil_conv)
      then have dl: "sp (last ?d)" using l by (simp add: last_dropWhile)
      have d34: "34 \<notin> set ?d" using cs set_dropWhileD by fastforce
      have "length ?d < length b"
        using length_dropWhile_le[of "\<lambda>x. \<not> sp x" cs] Cons by simp
      with d34 dl have
        "findall_pattern sp (?d @ t) = map (\<lambda>w. ([], w)) (split_acc sp [] ?d) @ findall_pattern sp t"
        by (intro IH) simp_all
      moreover have "findall_pattern sp (b @ t) =
          ([], c # takeWhile (\<lambda>x. \<not> sp x) cs) # findall_pattern sp (?d @ t)"
        using c False Cons by (simp add: tw dw)
      moreover have "split_acc sp [] b = (c # takeWhile (\<lambda>x. \<not> sp x) cs) # split_acc sp [] ?d"
        using False Cons by (simp only: split_acc_start if_False)
      ultimately show ?thesis by simp
    qed
  qed
qed

lemma findall_one_quote:
  "\<not> sp 34 \<Longrightarrow> length (filter (\<lambda>c. c = 34) s) \<le> 1 \<Longrightarrow>
     findall_pattern sp s = map (\<lambda>w. ([], w)) (split_acc sp [] s)"
proof (induction s rule: length_induct)
  case (1 s)
  have IH: "findall_pattern sp ys = map (\<lambda>w. ([], w)) (split_acc sp [] ys)"
    if "length ys < length s" "length (filter (\<lambda>c. c = 34) ys) \<le> 1" for ys
    using "1.IH" "1.prems"(1) that by blast
  show ?case
  proof (cases s)
    case Nil
    then show ?thesis by simp
  next
    case (Cons c cs)
    have unclosed: "c = 34 \<Longrightarrow> dropWhile (\<lambda>x. x \<noteq> 34) cs = []"
    proof -
      assume "c = 34"
      with "1.prems"(2) Cons have "filter (\<lambda>c. c = 34) cs = []" by simp
      then have "\<forall>x \<in> set cs. x \<noteq> 34" by (simp add: filter_empty_conv)
      then show ?thesis by simp
    qed
    from "1.prems"(2) Cons have cnt: "length (filter (\<lambda>c. c = 34) cs) \<le> 1"
      by (simp split: if_splits)
    show ?thesis
    proof (cases "sp c")
      case True
      with "1.prems"(1) have "c \<noteq> 34" by auto
      then have "findall_pattern sp s = findall_pattern sp cs" using True Cons by simp
      moreover have "findall_pattern sp cs = map (\<lambda>w. ([], w)) (split_acc sp [] cs)"
        using cnt Cons by (intro IH) simp_all
      moreover have "split_acc sp [] s = split_acc sp [] cs"
        using True Cons by (simp only: split_acc_start if_True)
      ultimately show ?thesis by simp
    next
      case False
      let ?d = "dropWhile (\<lambda>x. \<not> sp x) cs"
      have "length (filter (\<lambda>c. c = 34) ?d) \<le> 1"
        using cnt length_filter_dropWhile[of "\<lambda>c. c = 34" "\<lambda>x. \<not> sp x" cs] by simp
      moreover have "length ?d < length s"
        using length_dropWhile_le[of "\<lambda>x. \<not> sp x" cs] Cons by simp
      ultimately have "findall_pattern sp ?d = map (\<lambda>w. ([], w)) (split_acc sp [] ?d)"
        by (intro IH)
      moreover have "findall_pattern sp s =
          ([], c # takeWhile (\<lambda>x. \<not> sp x) cs) # findall_pattern sp ?d"
        using False Cons unclosed by (cases "c = 34") simp_all
      moreover have "split_acc sp [] s = (c # takeWhile (\<lambda>x. \<not> sp x) cs) # split_acc sp [] ?d"
        using False Cons by (simp only: split_acc_start if_False)
      ultimately show ?thesis by simp
    qed
  qed
qed

lemma words_only:
  assumes "[] \<notin> set ws"
  shows "map fst (filter (\<lambda>m. fst m \<noteq> []) (map (\<lambda>w. ([], w)) ws)) = []"
    and "map snd (filter (\<lambda>m. fst m = [] \<and> snd m \<noteq> []) (map (\<lambda>w. ([] :: pystr, w)) ws)) = ws"
  using assms by (induction ws) auto

lemma parse_outside:
  assumes "34 \<notin> set b" and "b = [] \<or> isspace U (last b)"
  shows "parse_simple_search_query U (b @ t) =
           (fst (parse_simple_search_query U t), split U b @ snd (parse_simple_search_query U t))"
  using words_only[OF split_acc_nonempty_words[of "isspace U" "[]" b]]
  by (simp add: parse_simple_search_query_def Let_def findall_outside[of b "isspace U" t, OF assms]
        parse_loop_fst_snd split_def)

lemma parse_one_quote:
  assumes "\<not> isspace U 34" and "length (filter (\<lambda>c. c = 34) s) \<le> 1"
  shows "parse_simple_search_query U s = ([], split U s)"
  using words_only[OF split_acc_nonempty_words[of "isspace U" "[]" s]]
  by (simp add: parse_simple_search_query_def Let_def findall_one_quote[of "isspace U" s, OF assms]
        parse_loop_fst_snd split_def)

lemma dropWhile_quote:
  assumes "dropWhile (\<lambda>c. c \<noteq> 34) s = x # r"
  shows "x = 34" and "s = takeWhile (\<lambda>c. c \<noteq> 34) s @ 34 # r"
    and "34 \<notin> set (takeWhile (\<lambda>c. c \<noteq> 34) s)"
proof -
  from assms have "dropWhile (\<lambda>c. c \<noteq> 34) s \<noteq> []" by simp
  from hd_dropWhile[OF this] assms show x: "x = 34" by simp
  have "s = takeWhile (\<lambda>c. c \<noteq> 34) s @ dropWhile (\<lambda>c. c \<noteq> 34) s" by simp
  with assms x show "s = takeWhile (\<lambda>c. c \<noteq> 34) s @ 34 # r" by simp
  show "34 \<notin> set (takeWhile (\<lambda>c. c \<noteq> 34) s)" using set_takeWhileD by fastforce
qed

lemma quoted_runs_no_quote:
  "dropWhile (\<lambda>c. c \<noteq> 34) s = [] \<Longrightarrow> quoted_runs s = ([], s)"
  by (subst quoted_runs.simps) (simp only: list.case)

lemma quoted_runs_unclosed:
  "dropWhile (\<lambda>c. c \<noteq> 34) s = x # r \<Longrightarrow> dropWhile (\<lambda>c. c \<noteq> 34) r = [] \<Longrightarrow>
     quoted_runs s = ([], s)"
  by (subst quoted_runs.simps) (simp only: list.case)

lemma quoted_runs_closed:
  "dropWhile (\<lambda>c. c \<noteq> 34) s = x # r \<Longrightarrow> dropWhile (\<lambda>c. c \<noteq> 34) r = y # after \<Longrightarrow>
     quoted_runs s =
       ((takeWhile (\<lambda>c. c \<noteq> 34) s, takeWhile (\<lambda>c. c \<noteq> 34) r) # fst (quoted_runs after),
        snd (quoted_runs after))"
  by (subst quoted_runs.simps) (simp only: list.case Let_def case_prod_beta)

lemma parse_well_quoted:
  "\<not> isspace U 34 \<Longrightarrow> well_quoted U s \<Longrightarrow> parse_simple_search_query U s = spec_parse U s"
proof (induction s rule: quoted_runs.induct)
  case (1 s)
  show ?case
  proof (cases "dropWhile (\<lambda>c. c \<noteq> 34) s")
    case Nil
    then have "\<forall>x \<in> set s. x \<noteq> 34" by (simp add: dropWhile_eq_Nil_conv)
    then have "filter (\<lambda>c. c = 34) s = []" by (simp add: filter_empty_conv)
    then have "parse_simple_search_query U s = ([], split U s)"
      using "1.prems"(1) by (intro parse_one_quote) simp_all
    moreover have "spec_parse U s = ([], split U s)"
      by (simp add: spec_parse_def quoted_runs_no_quote[OF Nil])
    ultimately show ?thesis by simp
  next
    case (Cons x r)
    note s = dropWhile_quote[OF Cons]
    let ?b = "takeWhile (\<lambda>c. c \<noteq> 34) s"
    show ?thesis
    proof (cases "dropWhile (\<lambda>c. c \<noteq> 34) r")
      case Nil
      then have "\<forall>x \<in> set r. x \<noteq> 34" by (simp add: dropWhile_eq_Nil_conv)
      then have r0: "filter (\<lambda>c. c = 34) r = []" by (simp add: filter_empty_conv)
      have b0: "filter (\<lambda>c. c = 34) ?b = []" using s(3) by (auto simp: filter_empty_conv)
      have "filter (\<lambda>c. c = 34) s = filter (\<lambda>c. c = 34) (?b @ 34 # r)" using s(2) by simp
      then have "length (filter (\<lambda>c. c = 34) s) \<le> 1" by (simp add: r0 b0)
      then have "parse_simple_search_query U s = ([], split U s)"
        using "1.prems"(1) by (intro parse_one_quote)
      moreover have "spec_parse U s = ([], split U s)"
        by (simp add: spec_parse_def quoted_runs_unclosed[OF Cons Nil])
      ultimately show ?thesis by simp
    next
      case (Cons y after) note inner = this
      note r = dropWhile_quote[OF inner]
      let ?p = "takeWhile (\<lambda>c. c \<noteq> 34) r"
      obtain runs remainder where qa: "quoted_runs after = (runs, remainder)"
        by (cases "quoted_runs after")
      have qs: "quoted_runs s = ((?b, ?p) # runs, remainder)"
        by (simp add: quoted_runs_closed[OF \<open>dropWhile (\<lambda>c. c \<noteq> 34) s = x # r\<close> inner] qa)
      from "1.prems"(2) qs qa have p: "?p \<noteq> []" and b: "?b = [] \<or> isspace U (last ?b)"
        and wa: "well_quoted U after"
        by (simp_all add: well_quoted_def)
      have IH: "parse_simple_search_query U after = spec_parse U after"
        using "1.IH"[OF \<open>dropWhile (\<lambda>c. c \<noteq> 34) s = x # r\<close> inner "1.prems"(1) wa] .
      have "s = ?b @ (quoted ?p @ after)"
        using s(2) r(2) by (simp add: quoted_def)
      then have "parse_simple_search_query U s = parse_simple_search_query U (?b @ (quoted ?p @ after))"
        by simp
      also have "\<dots> = (?p # fst (parse_simple_search_query U after),
                       split U ?b @ snd (parse_simple_search_query U after))"
        by (simp add: parse_outside[OF s(3) b] parse_leading_phrase[OF p r(3)])
      also have "\<dots> = spec_parse U s"
        by (simp add: IH spec_parse_def qs qa)
      finally show ?thesis .
    qed
  qed
qed

lemma chunk_norm_text_spec: "chunk_norm_text U doc = chunk_folded_text U doc"
  by (cases "doc_text doc") (simp_all add: chunk_norm_text_def chunk_folded_text_def norm_text_spec)

lemma code_matches_well_quoted:
  "\<not> isspace U 34 \<Longrightarrow> well_quoted U q \<Longrightarrow> code_matches U q doc = chunk_matches U q doc"
  by (simp add: code_matches_def chunk_matches_def parse_well_quoted norm_text_spec
        chunk_norm_text_spec)

text \<open>
  C5 (as amended). Let the double quote be no whitespace character and let the raw query be
  well quoted. Then the parse of the program is the parse of the specification: the
  phrases are the runs delimited by double quotes and the words are the
  whitespace-separated pieces of the rest. A chunk is in the result if and only if its
  case-folded, accent-stripped text contains every quoted phrase and every unquoted word,
  case-folded and accent-stripped, as a contiguous substring. The matching chunks are
  returned in ascending order of corpus id, each once and each with score exactly 1.
\<close>

theorem simple_text_search_well_quoted:
  assumes "\<not> isspace U 34" and "well_quoted U raw_query"
  shows "parse_simple_search_query U raw_query = spec_parse U raw_query \<and>
   map fst (simple_text_search U corpus raw_query) =
     filter (\<lambda>i. chunk_matches U raw_query (corpus ! i)) [0..<length corpus] \<and>
   (\<forall>i. i \<in> fst ` set (simple_text_search U corpus raw_query) \<longleftrightarrow>
          i < length corpus \<and> chunk_matches U raw_query (corpus ! i)) \<and>
   (\<forall>c \<in> set (simple_text_search U corpus raw_query). snd c = 1) \<and>
   sorted (map fst (simple_text_search U corpus raw_query)) \<and>
   distinct (map fst (simple_text_search U corpus raw_query))"
proof -
  let ?ids = "filter (\<lambda>i. chunk_matches U raw_query (corpus ! i)) [0..<length corpus]"
  have "simple_text_search U corpus raw_query =
      map (\<lambda>i. (i, 1)) (filter (\<lambda>i. code_matches U raw_query (corpus ! i)) [0..<length corpus])"
    by (rule simple_text_search_filter)
  then have r: "simple_text_search U corpus raw_query = map (\<lambda>i. (i, 1)) ?ids"
    by (simp only: code_matches_well_quoted[OF assms])
  have ids: "map fst (simple_text_search U corpus raw_query) = ?ids"
    unfolding r by (simp add: comp_def)
  have mem: "i \<in> fst ` set (simple_text_search U corpus raw_query) \<longleftrightarrow>
          i < length corpus \<and> chunk_matches U raw_query (corpus ! i)" for i
  proof -
    have "fst ` set (simple_text_search U corpus raw_query) = set ?ids"
      using ids by (metis set_map)
    then show ?thesis by auto
  qed
  have ones: "\<forall>c \<in> set (simple_text_search U corpus raw_query). snd c = 1"
    unfolding r by auto
  have "sorted ?ids" by (rule sorted_wrt_filter) simp
  moreover have "distinct ?ids" by simp
  ultimately show ?thesis using ids mem ones parse_well_quoted[OF assms] by simp
qed

lemma accent_query_well_quoted:
  "\<not> isspace latin 34"
  "well_quoted latin (cafe_acute @ str '' '' @ quoted (str ''Exact Phrase''))"
  by code_simp+

lemma accent_query_chunks:
  "filter (\<lambda>i. chunk_matches latin (cafe_acute @ str '' '' @ quoted (str ''Exact Phrase''))
                 (accent_phrase_corpus ! i)) [0..<length accent_phrase_corpus] = [1, 2]"
  by code_simp

theorem simple_text_search_well_quoted_witness:
  "simple_text_search latin accent_phrase_corpus
     (cafe_acute @ str '' '' @ quoted (str ''Exact Phrase'')) = [(1, 1), (2, 1)] \<and>
   parse_simple_search_query latin (cafe_acute @ str '' '' @ quoted (str ''Exact Phrase'')) =
     ([str ''Exact Phrase''], [cafe_acute])"
proof -
  let ?q = "cafe_acute @ str '' '' @ quoted (str ''Exact Phrase'')"
  let ?r = "simple_text_search latin accent_phrase_corpus ?q"
  note main = simple_text_search_well_quoted[OF accent_query_well_quoted, of accent_phrase_corpus]
  from main have ids: "map fst ?r =
      filter (\<lambda>i. chunk_matches latin ?q (accent_phrase_corpus ! i)) [0..<length accent_phrase_corpus]"
    by blast
  from main have ones: "\<forall>c \<in> set ?r. snd c = 1"
    by blast
  from main have "parse_simple_search_query latin ?q = spec_parse latin ?q" by (rule conjunct1)
  moreover have "spec_parse latin ?q = ([str ''Exact Phrase''], [cafe_acute])" by code_simp
  ultimately have parse: "parse_simple_search_query latin ?q = ([str ''Exact Phrase''], [cafe_acute])"
    by simp
  have "map fst ?r = [1, 2]"
    unfolding ids by (rule accent_query_chunks)
  then obtain c d where c: "?r = [c, d]" "fst c = 1" "fst d = 2"
    by (cases ?r; cases "tl ?r") auto
  with ones have "snd c = 1" "snd d = 1" by simp_all
  with c parse show ?thesis by (cases c; cases d) simp
qed

text \<open>
  The claim as stated fails on a query that is not well quoted. In \<open>foo"bar baz"\<close> the
  quotes delimit the phrase \<open>bar baz\<close> and the rest is the word \<open>foo\<close>; the text
  \<open>foo bar baz\<close> contains both, so the chunk matches. The program reads the two words
  \<open>foo"bar\<close> and \<open>baz"\<close> and no phrase, and returns nothing.
\<close>

theorem simple_text_search_inner_quote_counterexample:
  "spec_parse ascii (str ''foo'' @ quoted (str ''bar baz'')) = ([str ''bar baz''], [str ''foo'']) \<and>
   chunk_matches ascii (str ''foo'' @ quoted (str ''bar baz'')) (page ''foo bar baz'') \<and>
   parse_simple_search_query ascii (str ''foo'' @ quoted (str ''bar baz'')) =
     ([], [str ''foo'' @ [34] @ str ''bar'', str ''baz'' @ [34]]) \<and>
   simple_text_search ascii [page ''foo bar baz''] (str ''foo'' @ quoted (str ''bar baz'')) = []"
proof -
  have "spec_parse ascii (str ''foo'' @ quoted (str ''bar baz'')) = ([str ''bar baz''], [str ''foo''])"
    by code_simp
  moreover have "chunk_matches ascii (str ''foo'' @ quoted (str ''bar baz'')) (page ''foo bar baz'')"
    by code_simp
  moreover have "parse_simple_search_query ascii (str ''foo'' @ quoted (str ''bar baz'')) =
     ([], [str ''foo'' @ [34] @ str ''bar'', str ''baz'' @ [34]])"
    by code_simp
  moreover have "simple_text_search ascii [page ''foo bar baz''] (str ''foo'' @ quoted (str ''bar baz'')) = []"
    by code_simp
  ultimately show ?thesis by simp
qed

subsection \<open>Python's stable descending sort\<close>

lemma sort_reverse_descending:
  "sorted_wrt (\<lambda>a b. k b \<le> k a) (sort_reverse k xs)"
proof -
  have "sorted (map k (sort_key k (rev xs)))" by simp
  then have "sorted_wrt (\<lambda>a b. k a \<le> k b) (sort_key k (rev xs))"
    by (simp add: sorted_map)
  then show ?thesis
    by (simp add: sort_reverse_def sorted_wrt_rev)
qed

lemma sort_reverse_stable:
  "filter (\<lambda>y. k y = v) (sort_reverse k xs) = filter (\<lambda>y. k y = v) xs"
proof -
  have "filter (\<lambda>y. k y = v) (sort_reverse k xs) = rev (filter (\<lambda>y. k y = v) (sort_key k (rev xs)))"
    by (simp add: sort_reverse_def rev_filter)
  also have "\<dots> = rev (filter (\<lambda>y. k y = v) (rev xs))"
    by (simp only: sort_key_stable)
  also have "\<dots> = filter (\<lambda>y. k y = v) xs"
    by (simp add: rev_filter)
  finally show ?thesis .
qed

lemma mset_sort_reverse: "mset (sort_reverse k xs) = mset xs"
  by (simp add: sort_reverse_def)

lemma set_sort_reverse: "set (sort_reverse k xs) = set xs"
  by (simp add: sort_reverse_def)

lemma length_sort_reverse: "length (sort_reverse k xs) = length xs"
  by (simp add: sort_reverse_def)

lemma descending_sort_reverse: "descending (sort_reverse snd xs)"
  unfolding descending_def by (rule sort_reverse_descending)

lemma descending_take: "descending xs \<Longrightarrow> descending (take n xs)"
  unfolding descending_def by (rule sorted_wrt_take)

subsection \<open>BM25 retrieval\<close>

lemma bm25_retrieval_eq:
  assumes "retrieve L model (tokenize L [q]) (length corpus) = Inr (ids, scores)"
    and "length ids \<le> length scores"
  shows "bm25_retrieval L model corpus q =
           Inr (take MAX_SEARCH_RESULTS (sort_reverse snd (zip ids scores)))"
  using assms by (simp add: bm25_retrieval_def)

text \<open>
  C1 (as amended). When the library answers the query with the rows \<open>ids\<close> and \<open>scores\<close>,
  BM25 retrieval returns the first \<open>MAX_SEARCH_RESULTS\<close> entries of a list \<open>ranked\<close> that
  is a rearrangement of the library's (id, score) pairs in descending order of score in
  which candidates of equal score keep the order the library gave them; no tie-break by
  chunk id is applied. The result is a function of the corpus, the query and the
  library's answer alone.
\<close>

theorem bm25_retrieval_descending_stable:
  assumes "retrieve L model (tokenize L [q]) (length corpus) = Inr (ids, scores)"
    and "length ids \<le> length scores"
  shows "\<exists>ranked. bm25_retrieval L model corpus q = Inr (take MAX_SEARCH_RESULTS ranked) \<and>
           descending (take MAX_SEARCH_RESULTS ranked) \<and>
           descending ranked \<and>
           mset ranked = mset (zip ids scores) \<and>
           (\<forall>s. filter (\<lambda>c. snd c = s) ranked = filter (\<lambda>c. snd c = s) (zip ids scores))"
proof (intro exI conjI allI)
  show "bm25_retrieval L model corpus q =
          Inr (take MAX_SEARCH_RESULTS (sort_reverse snd (zip ids scores)))"
    by (rule bm25_retrieval_eq[OF assms])
  show "descending (sort_reverse snd (zip ids scores))"
    by (rule descending_sort_reverse)
  then show "descending (take MAX_SEARCH_RESULTS (sort_reverse snd (zip ids scores)))"
    by (rule descending_take)
  show "mset (sort_reverse snd (zip ids scores)) = mset (zip ids scores)"
    by (rule mset_sort_reverse)
  show "filter (\<lambda>c. snd c = s) (sort_reverse snd (zip ids scores)) =
        filter (\<lambda>c. snd c = s) (zip ids scores)" for s
    by (rule sort_reverse_stable)
qed

lemma tie_retrieval_value:
  "bm25_retrieval tie_library () tie_corpus (str ''dog'') = Inr [(1, 2), (0, 2)]"
  by (simp add: bm25_retrieval_def tie_library_def tie_corpus_def sort_reverse_def
        MAX_SEARCH_RESULTS_def)

lemma tie_library_retrieve:
  "retrieve tie_library () (tokenize tie_library [str ''dog'']) (length tie_corpus) =
     Inr ([1, 0], [2, 2])"
  by (simp add: tie_library_def)

theorem bm25_retrieval_descending_stable_witness:
  "\<exists>ranked. bm25_retrieval tie_library () tie_corpus (str ''dog'') =
              Inr (take MAX_SEARCH_RESULTS ranked) \<and>
           descending (take MAX_SEARCH_RESULTS ranked) \<and>
           descending ranked \<and>
           mset ranked = mset (zip [1, 0] [2, 2 :: real]) \<and>
           (\<forall>s. filter (\<lambda>c. snd c = s) ranked = filter (\<lambda>c. snd c = s) (zip [1, 0] [2, 2]))"
  using bm25_retrieval_descending_stable[OF tie_library_retrieve] by simp

text \<open>
  The claim as stated fails: on two chunks of equal score that the library lists in the
  order 1, 0 the result keeps that order, which is not ascending in the chunk id.
\<close>

theorem bm25_tie_break_counterexample:
  "bm25_retrieval tie_library () tie_corpus (str ''dog'') = Inr [(1, 2), (0, 2)] \<and>
   \<not> descending_then_id [(1, 2), (0, 2)]"
  by (simp add: bm25_retrieval_def tie_library_def tie_corpus_def sort_reverse_def
        MAX_SEARCH_RESULTS_def descending_then_id_def)

subsection \<open>Lengths of the candidate lists\<close>

lemma bm25_retrieval_length:
  "bm25_retrieval L model corpus q = Inr r \<Longrightarrow> length r \<le> MAX_SEARCH_RESULTS"
  by (auto simp: bm25_retrieval_def Let_def split: sum.splits prod.splits if_splits)

lemma embeddings_search_length:
  "embeddings_search U corpus qe = Inr r \<Longrightarrow> length r \<le> MAX_SEARCH_RESULTS"
  by (auto simp: embeddings_search_def Let_def length_sort_reverse split: sum.splits)

lemma simple_text_search_length:
  "length (simple_text_search U corpus q) \<le> length corpus"
proof -
  have "length (filter (\<lambda>i. code_matches U q (corpus ! i)) [0..<length corpus]) \<le>
        length [0..<length corpus]"
    by (rule length_filter_le)
  then show ?thesis by (simp add: simple_text_search_filter)
qed

lemma exact_loop_length:
  "exact_loop U corpus qn top_docs m u = Inr (m', u') \<Longrightarrow>
     length m' + length u' = length m + length u + length top_docs"
proof (induction top_docs arbitrary: m u)
  case Nil
  then show ?case by simp
next
  case (Cons c rest)
  obtain doc_id s where c: "c = (doc_id, s)" by (cases c)
  from Cons.prems obtain t where t: "corpus_text corpus doc_id = Inr t"
    by (auto simp: c split: sum.splits)
  show ?case
  proof (cases "str_in qn (remove_accents U (lower U t))")
    case True
    with Cons.prems t have "exact_loop U corpus qn rest (m @ [(doc_id, s)]) u = Inr (m', u')"
      by (simp add: c)
    from Cons.IH[OF this] show ?thesis by simp
  next
    case False
    with Cons.prems t have "exact_loop U corpus qn rest m (u @ [(doc_id, s)]) = Inr (m', u')"
      by (simp add: c)
    from Cons.IH[OF this] show ?thesis by simp
  qed
qed

lemma rerank_exact_text_length:
  "rerank_exact_text U corpus top_docs q = Inr r \<Longrightarrow> length r = length top_docs"
  by (auto simp: rerank_exact_text_def Let_def split: sum.splits dest: exact_loop_length)

lemma span_scores_length:
  "span_scores U corpus qts top_docs = Inr r \<Longrightarrow> length r = length top_docs"
proof (induction top_docs arbitrary: r)
  case Nil
  then show ?case by simp
next
  case (Cons c rest)
  obtain doc_id s where c: "c = (doc_id, s)" by (cases c)
  from Cons.prems obtain r' where "span_scores U corpus qts rest = Inr r'" "length r = Suc (length r')"
    by (auto simp: c split: sum.splits)
  with Cons.IH show ?case by simp
qed

lemma rerank_minimal_span_length:
  "rerank_minimal_span U corpus top_docs qts = Inr r \<Longrightarrow> length r = length top_docs"
  by (auto simp: rerank_minimal_span_def length_sort_reverse split: sum.splits
           dest: span_scores_length)

lemma rerank_with_embeddings_length:
  "rerank_with_embeddings X corpus top_docs q = Inr r \<Longrightarrow> length r \<le> length top_docs"
  by (auto simp: rerank_with_embeddings_def Let_def length_sort_reverse split: sum.splits)

lemma rerank_length:
  "rerank U X G m qts q r = Inr r' \<Longrightarrow> length r' \<le> length r"
  by (cases m)
     (auto simp: rerank_def split: if_splits
           dest: rerank_minimal_span_length rerank_exact_text_length rerank_with_embeddings_length)

text \<open>
  C4 (as amended). BM25 retrieval, before and after any of its rerankers, and embeddings
  search produce at most \<open>MAX_SEARCH_RESULTS = 50\<close> candidates. Simple text search is not
  truncated: it returns every matching chunk, so its length is bounded by the size of the
  corpus only.
\<close>

theorem candidate_list_lengths:
  "MAX_SEARCH_RESULTS = 50 \<and>
   (bm25_retrieval L model corpus q = Inr truncated \<longrightarrow> length truncated \<le> MAX_SEARCH_RESULTS) \<and>
   (bm25_retrieval L model corpus q = Inr truncated \<and>
    rerank U X G m qts q truncated = Inr final \<longrightarrow> length final \<le> MAX_SEARCH_RESULTS) \<and>
   (embeddings_search U corpus qe = Inr penalized_scores \<longrightarrow>
      length penalized_scores \<le> MAX_SEARCH_RESULTS) \<and>
   length (simple_text_search U corpus q) \<le> length corpus"
proof (intro conjI impI)
  show "MAX_SEARCH_RESULTS = 50" by (simp add: MAX_SEARCH_RESULTS_def)
  show "length truncated \<le> MAX_SEARCH_RESULTS" if "bm25_retrieval L model corpus q = Inr truncated"
    using that by (rule bm25_retrieval_length)
  show "length final \<le> MAX_SEARCH_RESULTS"
    if "bm25_retrieval L model corpus q = Inr truncated \<and>
        rerank U X G m qts q truncated = Inr final"
    using that bm25_retrieval_length[of L model corpus q truncated]
      rerank_length[of U X G m qts q truncated final] by simp
  show "length penalized_scores \<le> MAX_SEARCH_RESULTS"
    if "embeddings_search U corpus qe = Inr penalized_scores"
    using that by (rule embeddings_search_length)
  show "length (simple_text_search U corpus q) \<le> length corpus"
    by (rule simple_text_search_length)
qed

lemma letter_code_matches: "code_matches ascii (str ''a'') letter_chunk"
  by code_simp

lemma simple_text_search_large_corpus:
  "length (simple_text_search ascii large_corpus (str ''a'')) = 51"
proof -
  have "filter (\<lambda>i. code_matches ascii (str ''a'') (large_corpus ! i)) [0..<length large_corpus] =
        [0..<length large_corpus]"
    by (rule filter_True) (simp add: large_corpus_def letter_code_matches)
  then show ?thesis
    by (simp add: simple_text_search_filter large_corpus_def)
qed

text \<open>
  The claim as stated fails for simple text search: on a corpus of 51 chunks that all match
  it returns 51 candidates.
\<close>

theorem simple_text_search_uncapped_counterexample:
  "\<not> length (simple_text_search ascii large_corpus (str ''a'')) \<le> MAX_SEARCH_RESULTS"
  by (simp add: simple_text_search_large_corpus MAX_SEARCH_RESULTS_def)

theorem candidate_list_lengths_witness:
  "bm25_retrieval tie_library () tie_corpus (str ''dog'') = Inr [(1, 2), (0, 2)] \<and>
   rerank ascii no_fastembed tie_globals No_reranking [] (str ''dog'') [(1, 2), (0, 2)] =
     Inr [(1, 2), (0, 2)] \<and>
   embeddings_search ascii tie_corpus [1] = Inr [] \<and>
   length [(1, 2), (0, 2 :: real)] \<le> MAX_SEARCH_RESULTS \<and>
   length (simple_text_search ascii tie_corpus (str ''dog'')) \<le> length tie_corpus"
  using candidate_list_lengths[where L = tie_library and model = "()" and corpus = tie_corpus
          and q = "str ''dog''" and truncated = "[(1, 2), (0, 2)]" and U = ascii
          and X = no_fastembed and G = tie_globals and m = No_reranking and qts = "[]"
          and final = "[(1, 2), (0, 2)]" and qe = "[1]" and penalized_scores = "[]"]
    tie_retrieval_value
  by (simp add: rerank_def embeddings_search_def tie_corpus_def sort_reverse_def)

subsection \<open>The fallback of embeddings search\<close>

lemma search_ignores_terms_and_display:
  "search U L X G (app\<lparr> query_terms := x, result_display := y \<rparr>) = search U L X G app"
  by (simp add: search_def Let_def set_results_def show_current_chunk_def
           split: search_method.splits option.splits sum.splits)

lemma search_no_embeddings:
  assumes "GLOBAL_CORPUS G \<noteq> []" and "strip U (query_input app) \<noteq> []"
    and "search_method_combo app = Embeddings_search" and "\<not> embeddings_present app"
  shows "search U L X G app =
           Inr (app\<lparr> query_terms := map (\<lambda>w. remove_accents U (lower U w))
                                      (findall_words U (strip U (query_input app))),
                     result_display := Message ''No .emb files found. Reverting to BM25 search.'',
                     search_method_combo := BM25 \<rparr>)"
  using assms by (simp add: search_def Let_def)

lemma search_bm25:
  assumes "GLOBAL_CORPUS G \<noteq> []" and "strip U (query_input app) \<noteq> []"
    and "search_method_combo app = BM25" and "GLOBAL_BM25_MODEL G = Some model"
    and "bm25_retrieval L model (GLOBAL_CORPUS G) (strip U (query_input app)) = Inr truncated"
    and "rerank U X G (rerank_combo app)
           (map (\<lambda>w. remove_accents U (lower U w)) (findall_words U (strip U (query_input app))))
           (strip U (query_input app)) truncated = Inr final"
    and "\<forall>c \<in> set final. fst c < length (GLOBAL_CORPUS G)"
  shows "\<exists>app'. search U L X G app = Inr app' \<and> results app' = final \<and>
                 current_result_index app' = 0"
proof (cases final)
  case Nil
  with assms show ?thesis
    by (simp add: search_def Let_def set_results_def)
next
  case (Cons c cs)
  with assms(7) have "fst c < length (GLOBAL_CORPUS G)" by simp
  with Cons assms show ?thesis
    by (simp add: search_def Let_def set_results_def show_current_chunk_def)
qed

text \<open>
  C3 (as amended). When embeddings search is requested on a non-empty corpus with a
  non-empty query and no chunk carries an embedding, the search call shows the fallback
  notice, switches the retrieval selector to BM25 and returns without running any
  retrieval: the result list and the current index are left as they were. The next search
  call on the returned application object is a BM25 search of the same query, and its
  result list is the BM25 ranking.
\<close>

theorem search_embeddings_fallback:
  assumes "GLOBAL_CORPUS G \<noteq> []" and "strip U (query_input app) \<noteq> []"
    and "search_method_combo app = Embeddings_search"
    and "embeddings_present app = any_embedding (GLOBAL_CORPUS G)"
    and "\<not> any_embedding (GLOBAL_CORPUS G)"
  shows "\<exists>app'. search U L X G app = Inr app' \<and>
           result_display app' = Message ''No .emb files found. Reverting to BM25 search.'' \<and>
           search_method_combo app' = BM25 \<and>
           results app' = results app \<and>
           current_result_index app' = current_result_index app \<and>
           query_input app' = query_input app \<and>
           search U L X G app' = search U L X G (app\<lparr> search_method_combo := BM25 \<rparr>) \<and>
           (\<forall>model truncated final.
              GLOBAL_BM25_MODEL G = Some model \<and>
              bm25_retrieval L model (GLOBAL_CORPUS G) (strip U (query_input app)) = Inr truncated \<and>
              rerank U X G (rerank_combo app)
                (map (\<lambda>w. remove_accents U (lower U w)) (findall_words U (strip U (query_input app))))
                (strip U (query_input app)) truncated = Inr final \<and>
              (\<forall>c \<in> set final. fst c < length (GLOBAL_CORPUS G)) \<longrightarrow>
              (\<exists>app''. search U L X G app' = Inr app'' \<and> results app'' = final))"
proof -
  define app' where "app' = app\<lparr> query_terms := map (\<lambda>w. remove_accents U (lower U w))
                                      (findall_words U (strip U (query_input app))),
                     result_display := Message ''No .emb files found. Reverting to BM25 search.'',
                     search_method_combo := BM25 \<rparr>"
  have s: "search U L X G app = Inr app'"
    unfolding app'_def using assms by (intro search_no_embeddings) simp_all
  have again: "search U L X G app' = search U L X G (app\<lparr> search_method_combo := BM25 \<rparr>)"
  proof -
    have "app' = (app\<lparr> search_method_combo := BM25 \<rparr>)
                   \<lparr> query_terms := map (\<lambda>w. remove_accents U (lower U w))
                                      (findall_words U (strip U (query_input app))),
                     result_display := Message ''No .emb files found. Reverting to BM25 search.'' \<rparr>"
      by (simp add: app'_def)
    then show ?thesis by (simp only: search_ignores_terms_and_display)
  qed
  have next_call: "\<exists>app''. search U L X G app' = Inr app'' \<and> results app'' = final"
    if "GLOBAL_BM25_MODEL G = Some model \<and>
        bm25_retrieval L model (GLOBAL_CORPUS G) (strip U (query_input app)) = Inr truncated \<and>
        rerank U X G (rerank_combo app)
          (map (\<lambda>w. remove_accents U (lower U w)) (findall_words U (strip U (query_input app))))
          (strip U (query_input app)) truncated = Inr final \<and>
        (\<forall>c \<in> set final. fst c < length (GLOBAL_CORPUS G))"
    for model truncated final
  proof -
    have "\<exists>app''. search U L X G (app\<lparr> search_method_combo := BM25 \<rparr>) = Inr app'' \<and>
            results app'' = final \<and> current_result_index app'' = 0"
      using that assms(1,2) by (intro search_bm25[where model = model and truncated = truncated]) simp_all
    then show ?thesis using again by auto
  qed
  show ?thesis
  proof (rule exI[of _ app'], intro conjI allI impI)
    show "search U L X G app = Inr app'" by (rule s)
    show "result_display app' = Message ''No .emb files found. Reverting to BM25 search.''"
      by (simp add: app'_def)
    show "search_method_combo app' = BM25" by (simp add: app'_def)
    show "results app' = results app" by (simp add: app'_def)
    show "current_result_index app' = current_result_index app" by (simp add: app'_def)
    show "query_input app' = query_input app" by (simp add: app'_def)
    show "search U L X G app' = search U L X G (app\<lparr> search_method_combo := BM25 \<rparr>)"
      by (rule again)
    show "\<exists>app''. search U L X G app' = Inr app'' \<and> results app'' = final"
      if "GLOBAL_BM25_MODEL G = Some model \<and>
        bm25_retrieval L model (GLOBAL_CORPUS G) (strip U (query_input app)) = Inr truncated \<and>
        rerank U X G (rerank_combo app)
          (map (\<lambda>w. remove_accents U (lower U w)) (findall_words U (strip U (query_input app))))
          (strip U (query_input app)) truncated = Inr final \<and>
        (\<forall>c \<in> set final. fst c < length (GLOBAL_CORPUS G))"
      for model truncated final
      using that by (rule next_call)
  qed
qed

lemma search_emb_request:
  "search ascii tie_library no_fastembed tie_globals emb_request = Inr emb_fallback"
  by (simp add: search_def Let_def emb_request_def emb_fallback_def tie_globals_def tie_corpus_def
        strip_def ascii_def ascii_isspace_def str_def findall_words_def ascii_isword_def
        remove_accents_def ascii_lower_def)

theorem search_embeddings_fallback_witness:
  "\<exists>app'. search ascii tie_library no_fastembed tie_globals emb_request = Inr app' \<and>
           result_display app' = Message ''No .emb files found. Reverting to BM25 search.'' \<and>
           search_method_combo app' = BM25 \<and> results app' = [] \<and>
           (\<exists>app''. search ascii tie_library no_fastembed tie_globals app' = Inr app'' \<and>
                     results app'' = [(1, 2), (0, 2)])"
proof -
  have strip_dog: "strip ascii (str ''dog'') = str ''dog''"
    by (simp add: strip_def ascii_def ascii_isspace_def str_def)
  have h1: "GLOBAL_CORPUS tie_globals \<noteq> []" by (simp add: tie_globals_def tie_corpus_def)
  have h2: "strip ascii (query_input emb_request) \<noteq> []"
    by (simp add: emb_request_def strip_dog) (simp add: str_def)
  have h3: "search_method_combo emb_request = Embeddings_search" by (simp add: emb_request_def)
  have h5: "\<not> any_embedding (GLOBAL_CORPUS tie_globals)"
    by (simp add: any_embedding_def tie_globals_def tie_corpus_def)
  have h4: "embeddings_present emb_request = any_embedding (GLOBAL_CORPUS tie_globals)"
    using h5 by (simp add: emb_request_def)
  from search_embeddings_fallback[OF h1 h2 h3 h4 h5, of tie_library no_fastembed]
  obtain app' where a: "search ascii tie_library no_fastembed tie_globals emb_request = Inr app'"
    "result_display app' = Message ''No .emb files found. Reverting to BM25 search.''"
    "search_method_combo app' = BM25" "results app' = results emb_request"
    and nxt: "\<forall>model truncated final.
              GLOBAL_BM25_MODEL tie_globals = Some model \<and>
              bm25_retrieval tie_library model (GLOBAL_CORPUS tie_globals)
                (strip ascii (query_input emb_request)) = Inr truncated \<and>
              rerank ascii no_fastembed tie_globals (rerank_combo emb_request)
                (map (\<lambda>w. remove_accents ascii (lower ascii w))
                   (findall_words ascii (strip ascii (query_input emb_request))))
                (strip ascii (query_input emb_request)) truncated = Inr final \<and>
              (\<forall>c \<in> set final. fst c < length (GLOBAL_CORPUS tie_globals)) \<longrightarrow>
              (\<exists>app''. search ascii tie_library no_fastembed tie_globals app' = Inr app'' \<and>
                        results app'' = final)"
    by blast
  have "\<exists>app''. search ascii tie_library no_fastembed tie_globals app' = Inr app'' \<and>
                results app'' = [(1, 2), (0, 2)]"
  proof (rule nxt[rule_format, of "()" "[(1, 2), (0, 2)]"], intro conjI)
    show "GLOBAL_BM25_MODEL tie_globals = Some ()" by (simp add: tie_globals_def)
    show "bm25_retrieval tie_library () (GLOBAL_CORPUS tie_globals)
            (strip ascii (query_input emb_request)) = Inr [(1, 2), (0, 2)]"
      using tie_retrieval_value by (simp add: tie_globals_def emb_request_def strip_dog)
    show "rerank ascii no_fastembed tie_globals (rerank_combo emb_request)
            (map (\<lambda>w. remove_accents ascii (lower ascii w))
               (findall_words ascii (strip ascii (query_input emb_request))))
            (strip ascii (query_input emb_request)) [(1, 2), (0, 2)] = Inr [(1, 2), (0, 2)]"
      by (simp add: rerank_def emb_request_def)
    show "\<forall>c \<in> set [(1, 2), (0, 2 :: real)]. fst c < length (GLOBAL_CORPUS tie_globals)"
      by (simp add: tie_globals_def tie_corpus_def)
  qed
  with a show ?thesis by (auto simp: emb_request_def)
qed

text \<open>
  The claim as stated fails: the search call that reports the fallback leaves the result
  list empty, while BM25 retrieval of the same query on the same corpus ranks two chunks.
\<close>

theorem search_embeddings_fallback_counterexample:
  "search ascii tie_library no_fastembed tie_globals emb_request = Inr emb_fallback \<and>
   results emb_fallback = [] \<and>
   bm25_retrieval tie_library () (GLOBAL_CORPUS tie_globals) (strip ascii (query_input emb_request)) =
     Inr [(1, 2), (0, 2)]"
proof -
  have "strip ascii (query_input emb_request) = str ''dog''"
    by (simp add: strip_def ascii_def ascii_isspace_def str_def emb_request_def)
  then show ?thesis
    using search_emb_request tie_retrieval_value
    by (simp add: emb_fallback_def tie_globals_def)
qed

subsection \<open>Embeddings search\<close>

lemma enumerate_as_map: "enumerate 0 xs = map (\<lambda>i. (i, xs ! i)) [0..<length xs]"
proof (rule nth_equalityI)
  show "length (enumerate 0 xs) = length (map (\<lambda>i. (i, xs ! i)) [0..<length xs])" by simp
next
  fix i assume "i < length (enumerate 0 xs)"
  then show "enumerate 0 xs ! i = map (\<lambda>i. (i, xs ! i)) [0..<length xs] ! i"
    by (simp add: nth_enumerate_eq)
qed

lemma np_dot_Inr: "np_dot a q = Inr v \<Longrightarrow> length a = length q \<and> v = sum_list (map (\<lambda>(x, y). x * y) (zip a q))"
  by (auto simp: np_dot_def split: if_splits)

lemma dot_scores_step:
  "dot_scores U q ((idx, doc) # rest) =
     (if scored U doc
      then (case np_dot (the (doc_embedding doc)) q of
              Inl e \<Rightarrow> Inl e
            | Inr v \<Rightarrow> (case dot_scores U q rest of Inl e \<Rightarrow> Inl e | Inr ds \<Rightarrow> Inr ((idx, v) # ds)))
      else dot_scores U q rest)"
  by (cases "doc_embedding doc") (simp_all add: scored_def)

lemma dot_scores_Inr:
  "dot_scores U q ixs = Inr ds \<Longrightarrow>
     ds = map (\<lambda>(i, doc). (i, raw_score q doc)) (filter (\<lambda>(i, doc). scored U doc) ixs)"
proof (induction ixs arbitrary: ds)
  case Nil
  then show ?case by simp
next
  case (Cons a ixs)
  obtain idx doc where a: "a = (idx, doc)" by (cases a)
  show ?case
  proof (cases "scored U doc")
    case True
    from Cons.prems True obtain v ds' where
      v: "np_dot (the (doc_embedding doc)) q = Inr v" and
      ds': "dot_scores U q ixs = Inr ds'" and ds: "ds = (idx, v) # ds'"
      unfolding a dot_scores_step by (auto split: sum.splits)
    from np_dot_Inr[OF v] have "v = raw_score q doc" by (simp add: raw_score_def)
    with Cons.IH[OF ds'] ds True show ?thesis by (simp add: a)
  next
    case False
    with Cons.prems have "dot_scores U q ixs = Inr ds" unfolding a dot_scores_step by simp
    from Cons.IH[OF this] False show ?thesis by (simp add: a)
  qed
qed

lemma dot_scores_total:
  "\<forall>(i, doc) \<in> set ixs. scored U doc \<longrightarrow> length (the (doc_embedding doc)) = length q \<Longrightarrow>
     \<exists>ds. dot_scores U q ixs = Inr ds"
proof (induction ixs)
  case Nil
  then show ?case by simp
next
  case (Cons a ixs)
  obtain idx doc where a: "a = (idx, doc)" by (cases a)
  from Cons obtain ds where ds: "dot_scores U q ixs = Inr ds" by auto
  show ?case
  proof (cases "scored U doc")
    case True
    with Cons.prems have "length (the (doc_embedding doc)) = length q" by (simp add: a)
    then show ?thesis unfolding a dot_scores_step using True ds by (simp add: np_dot_def)
  next
    case False
    then show ?thesis unfolding a dot_scores_step using ds by simp
  qed
qed

lemma dot_scores_corpus:
  assumes "dot_scores U q (enumerate 0 corpus) = Inr ds"
  shows "ds = map (\<lambda>i. (i, raw_score q (corpus ! i)))
                (filter (\<lambda>i. scored U (corpus ! i)) [0..<length corpus])"
  using dot_scores_Inr[OF assms]
  by (simp add: enumerate_as_map filter_map comp_def)

lemma penalized_final:
  "penalized corpus (i, raw_score q (corpus ! i)) = (i, final_score q (corpus ! i))"
  by (simp add: penalized_def final_score_def Let_def)

lemma distinct_fst_mset:
  "mset xs = mset ys \<Longrightarrow> distinct (map fst xs) \<Longrightarrow> distinct (map fst ys)"
proof -
  assume m: "mset xs = mset ys" and d: "distinct (map fst xs)"
  have "mset (map fst xs) = mset (map fst ys)" using m by (metis mset_map)
  then show ?thesis using d by (metis mset_eq_imp_distinct_iff)
qed

lemma length_filter_nth:
  "length (filter P xs) = length (filter (\<lambda>i. P (xs ! i)) [0..<length xs])"
proof -
  have "{i. i < length [0..<length xs] \<and> P (xs ! ([0..<length xs] ! i))} =
        {i. i < length xs \<and> P (xs ! i)}"
    by auto
  then show ?thesis
    by (simp only: length_filter_conv_card[of P xs]
          length_filter_conv_card[of "\<lambda>i. P (xs ! i)" "[0..<length xs]"])
qed

lemma embeddings_search_eq:
  assumes "embeddings_search U corpus q = Inr r"
  shows "\<exists>ranked. 
     ranked = sort_reverse snd (map (\<lambda>i. (i, raw_score q (corpus ! i)))
                (filter (\<lambda>i. scored U (corpus ! i)) [0..<length corpus])) \<and>
     r = sort_reverse snd (map (penalized corpus) (take MAX_SEARCH_RESULTS ranked))"
proof -
  from assms obtain ds where ds: "dot_scores U q (enumerate 0 corpus) = Inr ds"
    by (auto simp: embeddings_search_def split: sum.splits)
  from assms ds have "r = sort_reverse snd (map (penalized corpus)
                             (take MAX_SEARCH_RESULTS (sort_reverse snd ds)))"
    by (simp add: embeddings_search_def Let_def)
  with dot_scores_corpus[OF ds] show ?thesis by simp
qed

lemma embeddings_search_total:
  assumes "dims_agree U corpus q"
  shows "\<exists>r. embeddings_search U corpus q = Inr r"
proof -
  have "\<forall>(i, doc) \<in> set (enumerate 0 corpus). scored U doc \<longrightarrow>
          length (the (doc_embedding doc)) = length q"
    using assms by (auto simp: dims_agree_def enumerate_as_map)
  from dot_scores_total[OF this] obtain ds where "dot_scores U q (enumerate 0 corpus) = Inr ds"
    by blast
  then show ?thesis by (simp add: embeddings_search_def Let_def)
qed

lemma fst_penalized: "fst (penalized corpus c) = fst c"
  by (simp add: penalized_def Let_def)

lemma embeddings_search_properties:
  assumes "embeddings_search U corpus q = Inr r"
  shows "distinct (map fst r)"
    and "set (map fst r) \<subseteq> {i. i < length corpus \<and> scored U (corpus ! i)}"
    and "length r = min MAX_SEARCH_RESULTS (length (filter (scored U) corpus))"
    and "\<forall>c \<in> set r. snd c = final_score q (corpus ! fst c)"
    and "descending r"
    and "\<forall>i \<in> set (map fst r). \<forall>j. j < length corpus \<and> scored U (corpus ! j) \<and> j \<notin> set (map fst r)
           \<longrightarrow> raw_score q (corpus ! j) \<le> raw_score q (corpus ! i)"
proof -
  define ids where "ids = filter (\<lambda>i. scored U (corpus ! i)) [0..<length corpus]"
  define ds where "ds = map (\<lambda>i. (i, raw_score q (corpus ! i))) ids"
  define ranked where "ranked = sort_reverse snd ds"
  define top where "top = take MAX_SEARCH_RESULTS ranked"
  define rest where "rest = drop MAX_SEARCH_RESULTS ranked"
  from embeddings_search_eq[OF assms]
  have r: "r = sort_reverse snd (map (penalized corpus) top)"
    by (simp add: top_def ranked_def ds_def ids_def)
  have set_ranked: "set ranked = set ds" by (simp add: ranked_def set_sort_reverse)
  have form: "c = (fst c, raw_score q (corpus ! fst c)) \<and> fst c < length corpus \<and>
              scored U (corpus ! fst c)"
    if "c \<in> set ranked" for c
  proof -
    from that have "c \<in> set ds" by (simp only: set_ranked)
    then obtain i where "i \<in> set ids" "c = (i, raw_score q (corpus ! i))"
      unfolding ds_def by auto
    then show ?thesis unfolding ids_def by simp
  qed
  have split: "ranked = top @ rest" by (simp add: top_def rest_def)
  have top_sub: "set top \<subseteq> set ranked" unfolding split by simp
  have pen: "penalized corpus c = (fst c, final_score q (corpus ! fst c))" if "c \<in> set top" for c
  proof -
    from that top_sub have "c \<in> set ranked" by blast
    from form[OF this] have "c = (fst c, raw_score q (corpus ! fst c))" by simp
    then have "penalized corpus c = penalized corpus (fst c, raw_score q (corpus ! fst c))" by simp
    then show ?thesis by (simp only: penalized_final)
  qed
  have fst_pen: "map fst (map (penalized corpus) top) = map fst top"
    by (simp add: fst_penalized)
  have d_ids: "distinct ids" by (simp add: ids_def)
  have "map fst ds = ids" by (simp add: ds_def comp_def)
  then have d_ds: "distinct (map fst ds)" using d_ids by simp
  have "mset ds = mset ranked" by (simp add: ranked_def mset_sort_reverse)
  from distinct_fst_mset[OF this d_ds] have d_ranked: "distinct (map fst ranked)" .
  have "map fst top = take MAX_SEARCH_RESULTS (map fst ranked)"
    unfolding top_def by (rule take_map[symmetric])
  then have d_top: "distinct (map fst top)"
    using d_ranked distinct_take[of "map fst ranked" MAX_SEARCH_RESULTS] by (simp only:)
  have set_r: "set r = penalized corpus ` set top"
    by (simp add: r set_sort_reverse)
  have fst_r: "set (map fst r) = set (map fst top)"
    by (simp add: set_r image_image fst_penalized)
  show "distinct (map fst r)"
  proof -
    have d: "distinct (map fst (map (penalized corpus) top))" using d_top by (simp only: fst_pen)
    have "mset (map (penalized corpus) top) = mset r" by (simp add: r mset_sort_reverse)
    from distinct_fst_mset[OF this d] show ?thesis .
  qed
  show "set (map fst r) \<subseteq> {i. i < length corpus \<and> scored U (corpus ! i)}"
  proof
    fix i assume "i \<in> set (map fst r)"
    then obtain c where "c \<in> set top" "fst c = i" unfolding fst_r by auto
    with top_sub form[of c] show "i \<in> {i. i < length corpus \<and> scored U (corpus ! i)}" by blast
  qed
  show "length r = min MAX_SEARCH_RESULTS (length (filter (scored U) corpus))"
  proof -
    have "length (filter (scored U) corpus) = length ids"
      unfolding ids_def by (rule length_filter_nth)
    then show ?thesis
      by (simp add: r length_sort_reverse top_def ranked_def ds_def)
  qed
  show "\<forall>c \<in> set r. snd c = final_score q (corpus ! fst c)"
  proof
    fix c assume "c \<in> set r"
    then obtain a where a: "a \<in> set top" "c = penalized corpus a" unfolding set_r by blast
    from pen[OF a(1)] a(2) show "snd c = final_score q (corpus ! fst c)" by simp
  qed
  show "descending r" unfolding r by (rule descending_sort_reverse)
  show "\<forall>i \<in> set (map fst r). \<forall>j. j < length corpus \<and> scored U (corpus ! j) \<and> j \<notin> set (map fst r)
           \<longrightarrow> raw_score q (corpus ! j) \<le> raw_score q (corpus ! i)"
  proof (intro ballI allI impI)
    fix i j
    assume i: "i \<in> set (map fst r)"
      and j: "j < length corpus \<and> scored U (corpus ! j) \<and> j \<notin> set (map fst r)"
    from i obtain a where a: "a \<in> set top" "fst a = i" unfolding fst_r by auto
    from a(1) top_sub have "a \<in> set ranked" by blast
    from form[OF this] a(2) have a_snd: "snd a = raw_score q (corpus ! i)"
      by (metis snd_conv)
    define b where "b = (j, raw_score q (corpus ! j))"
    have "j \<in> set ids" using j by (simp add: ids_def)
    then have "b \<in> set ds" unfolding ds_def b_def by simp
    then have "b \<in> set top \<union> set rest" using set_ranked split by simp
    moreover have "b \<notin> set top"
    proof
      assume "b \<in> set top"
      then have "fst b \<in> set (map fst top)" by simp
      then have "j \<in> set (map fst r)" by (simp only: fst_r b_def fst_conv)
      then show False using j by blast
    qed
    ultimately have b: "b \<in> set rest" by blast
    have "sorted_wrt (\<lambda>a b. snd b \<le> snd a) (top @ rest)"
      using sort_reverse_descending[of snd ds] by (simp add: split[symmetric] ranked_def)
    then have "snd b \<le> snd a" using a(1) b unfolding sorted_wrt_append by blast
    then show "raw_score q (corpus ! j) \<le> raw_score q (corpus ! i)"
      using a_snd by (simp add: b_def)
  qed
qed

text \<open>
  C7 (as amended). Embeddings search scores exactly the chunks that carry an embedding and
  whose text is not blank (not empty after stripping whitespace); a chunk lacking either is
  left out. It raises only if the embedding of such a chunk and the query vector differ in
  length. Otherwise each chunk appears at most once in the result, the result has
  \<open>min MAX_SEARCH_RESULTS n\<close> entries for \<open>n\<close> scored chunks, every scored chunk that is left
  out has a raw dot product no larger than that of any chunk kept, the score of a chunk in
  the result is its raw dot product times the square root of the length of its text, and
  the result is in descending order of that score.
\<close>

theorem embeddings_search_ranking:
  "(dims_agree U corpus q \<longrightarrow> (\<exists>r. embeddings_search U corpus q = Inr r)) \<and>
   (\<forall>r. embeddings_search U corpus q = Inr r \<longrightarrow>
      distinct (map fst r) \<and>
      set (map fst r) \<subseteq> {i. i < length corpus \<and> scored U (corpus ! i)} \<and>
      length r = min MAX_SEARCH_RESULTS (length (filter (scored U) corpus)) \<and>
      (\<forall>i \<in> set (map fst r). \<forall>j. j < length corpus \<and> scored U (corpus ! j) \<and> j \<notin> set (map fst r)
           \<longrightarrow> raw_score q (corpus ! j) \<le> raw_score q (corpus ! i)) \<and>
      (\<forall>c \<in> set r. snd c = final_score q (corpus ! fst c)) \<and>
      descending r)"
proof (intro conjI allI impI)
  show "\<exists>r. embeddings_search U corpus q = Inr r" if "dims_agree U corpus q"
    using that by (rule embeddings_search_total)
next
  fix r assume r: "embeddings_search U corpus q = Inr r"
  show "distinct (map fst r)" by (rule embeddings_search_properties(1)[OF r])
  show "set (map fst r) \<subseteq> {i. i < length corpus \<and> scored U (corpus ! i)}"
    by (rule embeddings_search_properties(2)[OF r])
  show "length r = min MAX_SEARCH_RESULTS (length (filter (scored U) corpus))"
    by (rule embeddings_search_properties(3)[OF r])
  show "\<forall>i \<in> set (map fst r). \<forall>j. j < length corpus \<and> scored U (corpus ! j) \<and> j \<notin> set (map fst r)
           \<longrightarrow> raw_score q (corpus ! j) \<le> raw_score q (corpus ! i)"
    by (rule embeddings_search_properties(6)[OF r])
  show "\<forall>c \<in> set r. snd c = final_score q (corpus ! fst c)"
    by (rule embeddings_search_properties(4)[OF r])
  show "descending r" by (rule embeddings_search_properties(5)[OF r])
qed

lemma strip_ascii_values:
  "strip ascii (str ''a'') = str ''a''" "strip ascii (str ''abcd'') = str ''abcd''"
  "strip ascii (str ''  '') = []" "strip ascii (str '' '') = []"
  by (simp_all add: strip_def ascii_def ascii_isspace_def str_def)

lemma vector_corpus_value:
  "embeddings_search ascii vector_corpus [1, 0] = Inr [(1, 4), (0, 3)]"
  by (simp add: embeddings_search_def vector_corpus_def get_text_def strip_ascii_values
        np_dot_def sort_reverse_def MAX_SEARCH_RESULTS_def penalized_def Let_def)
     (simp add: str_def)

lemma vector_corpus_dims: "dims_agree ascii vector_corpus [1, 0]"
  by (simp add: dims_agree_def vector_corpus_def)

theorem embeddings_search_ranking_witness:
  "dims_agree ascii vector_corpus [1, 0] \<and>
   embeddings_search ascii vector_corpus [1, 0] = Inr [(1, 4), (0, 3)] \<and>
   distinct (map fst [(1 :: nat, 4 :: real), (0, 3)]) \<and>
   length [(1 :: nat, 4 :: real), (0, 3)] =
     min MAX_SEARCH_RESULTS (length (filter (scored ascii) vector_corpus)) \<and>
   descending [(1, 4), (0, 3)]"
proof -
  from embeddings_search_ranking[of ascii vector_corpus "[1, 0]"] vector_corpus_value
  have "distinct (map fst [(1 :: nat, 4 :: real), (0, 3)]) \<and>
        length [(1 :: nat, 4 :: real), (0, 3)] =
          min MAX_SEARCH_RESULTS (length (filter (scored ascii) vector_corpus)) \<and>
        descending [(1, 4), (0, 3)]"
    by blast
  with vector_corpus_dims vector_corpus_value show ?thesis by simp
qed

text \<open>
  The claim as stated fails: a chunk whose text is a single space has a non-empty text and
  an embedding, and is not scored.
\<close>

theorem embeddings_search_blank_counterexample:
  "doc_text (blank_corpus ! 0) = Some (str '' '') \<and> str '' '' \<noteq> [] \<and>
   doc_embedding (blank_corpus ! 0) = Some [1] \<and>
   embeddings_search ascii blank_corpus [1] = Inr []"
  by (simp add: blank_corpus_def embeddings_search_def get_text_def strip_ascii_values
        sort_reverse_def)
     (simp add: str_def)

subsection \<open>Alignment of embeddings\<close>

lemma attach_idem: "attach (attach d r) r = attach d r"
  by (cases r) (simp_all add: attach_def)

lemma attach_loop_step:
  "attach_loop ci rs (i # rest) (C, cnt) =
     (if length C \<le> ci + i then Inl IndexError
      else attach_loop ci rs rest (C[ci + i := attach (C ! (ci + i)) (rs ! i)],
             (case rs ! i of Some e \<Rightarrow> cnt + 1 | None \<Rightarrow> cnt)))"
  by (cases "rs ! i") (simp_all add: attach_def)

lemma attach_loop_nth:
  assumes "\<forall>i \<in> set is. ci + i < length C"
  shows "\<exists>C' cnt'. attach_loop ci rs is (C, cnt) = Inr (C', cnt') \<and> length C' = length C \<and>
           (\<forall>k < length C. C' ! k =
              (if ci \<le> k \<and> k - ci \<in> set is then attach (C ! k) (rs ! (k - ci)) else C ! k))"
  using assms
proof (induction "is" arbitrary: C cnt)
  case Nil
  then show ?case by simp
next
  case (Cons i rest)
  define C1 where "C1 = C[ci + i := attach (C ! (ci + i)) (rs ! i)]"
  define cnt1 where "cnt1 = (case rs ! i of Some e \<Rightarrow> cnt + 1 | None \<Rightarrow> cnt)"
  have len1: "length C1 = length C" by (simp add: C1_def)
  have inb: "ci + i < length C" using Cons.prems by simp
  have "\<forall>i \<in> set rest. ci + i < length C1" using Cons.prems by (simp add: len1)
  from Cons.IH[OF this, of cnt1] obtain C' cnt' where
    r: "attach_loop ci rs rest (C1, cnt1) = Inr (C', cnt')" and len: "length C' = length C1" and
    nth: "\<forall>k < length C1. C' ! k =
              (if ci \<le> k \<and> k - ci \<in> set rest then attach (C1 ! k) (rs ! (k - ci)) else C1 ! k)"
    by blast
  have step: "attach_loop ci rs (i # rest) (C, cnt) = Inr (C', cnt')"
    unfolding attach_loop_step using inb r by (simp add: C1_def cnt1_def)
  have "C' ! k = (if ci \<le> k \<and> k - ci \<in> set (i # rest) then attach (C ! k) (rs ! (k - ci)) else C ! k)"
    if k: "k < length C" for k
  proof (cases "k = ci + i")
    case True
    then have c1: "C1 ! k = attach (C ! k) (rs ! i)" using inb by (simp add: C1_def)
    from nth k len1 have "C' ! k =
        (if ci \<le> k \<and> k - ci \<in> set rest then attach (C1 ! k) (rs ! (k - ci)) else C1 ! k)" by simp
    then show ?thesis using True c1 by (simp add: attach_idem)
  next
    case False
    then have c1: "C1 ! k = C ! k" by (simp add: C1_def)
    have "ci \<le> k \<Longrightarrow> k - ci \<noteq> i" using False by auto
    moreover from nth k len1 have "C' ! k =
        (if ci \<le> k \<and> k - ci \<in> set rest then attach (C1 ! k) (rs ! (k - ci)) else C1 ! k)" by simp
    ultimately show ?thesis using c1 by auto
  qed
  with step len len1 show ?case by auto
qed

lemma length_attached: "length (attached ps rs) = length ps"
  by (simp add: attached_def)

lemma attached_nth:
  "i < length ps \<Longrightarrow> attached ps rs ! i = (if i < length rs then attach (ps ! i) (rs ! i) else ps ! i)"
  by (auto simp: attached_def nth_append)

lemma attach_loop_unit:
  assumes m: "m = min (length ps) (length rs)"
  shows "\<exists>cnt'. attach_loop (length A) rs [0..<m] (A @ ps @ B, cnt) = Inr (A @ attached ps rs @ B, cnt')"
proof -
  let ?C = "A @ ps @ B"
  have "\<forall>i \<in> set [0..<m]. length A + i < length ?C" using m by auto
  from attach_loop_nth[OF this, of rs cnt] obtain C' cnt' where
    r: "attach_loop (length A) rs [0..<m] (?C, cnt) = Inr (C', cnt')" and len: "length C' = length ?C" and
    nth: "\<forall>k < length ?C. C' ! k =
              (if length A \<le> k \<and> k - length A \<in> set [0..<m]
               then attach (?C ! k) (rs ! (k - length A)) else ?C ! k)"
    by blast
  have "C' = A @ attached ps rs @ B"
  proof (rule nth_equalityI)
    show "length C' = length (A @ attached ps rs @ B)" by (simp add: len length_attached)
  next
    fix k assume "k < length C'"
    then have k: "k < length ?C" by (simp add: len)
    from nth k have c: "C' ! k = (if length A \<le> k \<and> k - length A \<in> set [0..<m]
               then attach (?C ! k) (rs ! (k - length A)) else ?C ! k)" by blast
    consider (a) "k < length A" | (p) "length A \<le> k" "k - length A < length ps"
      | (b) "length A \<le> k" "length ps \<le> k - length A" by linarith
    then show "C' ! k = (A @ attached ps rs @ B) ! k"
    proof cases
      case a
      then show ?thesis using c by (simp add: nth_append)
    next
      case p
      then have "?C ! k = ps ! (k - length A)" by (simp add: nth_append)
      moreover have "(A @ attached ps rs @ B) ! k = attached ps rs ! (k - length A)"
        using p by (simp add: nth_append length_attached)
      ultimately show ?thesis using c p m by (simp add: attached_nth)
    next
      case b
      then have "\<not> k - length A < m" using m by simp
      then show ?thesis using c b by (simp add: nth_append length_attached)
    qed
  qed
  with r show ?thesis by blast
qed

lemma read_alike_num_pages: "read_alike u \<Longrightarrow> num_pages_of u = Inr (length (pages_of u))"
  by (cases "json_source u") (simp_all add: read_alike_def num_pages_of_def pages_of_def)

lemma loop_step_no_emb:
  "emb_source u = No_emb_file \<Longrightarrow> read_alike u \<Longrightarrow>
     load_embeddings_loop ((k, u) # rest) st =
       load_embeddings_loop rest (st\<lparr> corpus_index := corpus_index st + length (pages_of u) \<rparr>)"
  by (simp add: Let_def read_alike_num_pages)

lemma loop_step_emb:
  "emb_source u \<noteq> No_emb_file \<Longrightarrow> read_alike u \<Longrightarrow>
     load_embeddings_loop ((k, u) # rest) st =
       (case attach_loop (corpus_index st) (emb_records u)
               [0..<min (length (pages_of u)) (length (emb_records u))]
               (ls_corpus st, emb_count st) of
          Inl e \<Rightarrow> Inl e
        | Inr (corpus, cnt) \<Rightarrow>
            load_embeddings_loop rest
              (st\<lparr> ls_corpus := corpus, emb_count := cnt,
                   corpus_index := corpus_index st + length (pages_of u),
                   warnings := (if length (pages_of u) \<noteq> length (emb_records u)
                                then warnings st @ [k] else warnings st) \<rparr>))"
  by (cases "emb_source u") (simp_all add: Let_def emb_records_def read_alike_num_pages)

lemma attached_no_records: "attached ps [] = ps"
  by (simp add: attached_def)

lemma load_embeddings_loop_inv:
  assumes "ls_corpus st = A @ concat (map pages_of us)" and "corpus_index st = length A"
    and "\<forall>u \<in> set us. read_alike u"
  shows "\<exists>st'. load_embeddings_loop (enumerate n us) st = Inr st' \<and>
           ls_corpus st' = A @ concat (map attach_unit us) \<and>
           warnings st' = warnings st @ map fst (filter (\<lambda>(k, u). mismatch u) (enumerate n us))"
  using assms
proof (induction us arbitrary: st A n)
  case Nil
  then show ?case by simp
next
  case (Cons u us)
  let ?ps = "pages_of u" and ?B = "concat (map pages_of us)"
  have ra: "read_alike u" and ras: "\<forall>u \<in> set us. read_alike u" using Cons.prems(3) by simp_all
  show ?case
  proof (cases "emb_source u = No_emb_file")
    case True
    define st1 where "st1 = st\<lparr> corpus_index := corpus_index st + length ?ps \<rparr>"
    have c1: "ls_corpus st1 = (A @ ?ps) @ ?B" using Cons.prems(1) by (simp add: st1_def)
    have i1: "corpus_index st1 = length (A @ ?ps)" using Cons.prems(2) by (simp add: st1_def)
    from Cons.IH[OF c1 i1 ras, of "Suc n"] obtain st' where
      st': "load_embeddings_loop (enumerate (Suc n) us) st1 = Inr st'"
        "ls_corpus st' = (A @ ?ps) @ concat (map attach_unit us)"
        "warnings st' = warnings st1 @ map fst (filter (\<lambda>(k, u). mismatch u) (enumerate (Suc n) us))"
      by blast
    have au: "attach_unit u = ?ps"
      using True by (simp add: attach_unit_def emb_records_def attached_no_records)
    have nm: "\<not> mismatch u" using True by (simp add: mismatch_def)
    have "load_embeddings_loop (enumerate n (u # us)) st = Inr st'"
      using st'(1) loop_step_no_emb[OF True ra] by (simp add: st1_def)
    moreover have "ls_corpus st' = A @ concat (map attach_unit (u # us))"
      using st'(2) au by simp
    moreover have "warnings st' =
        warnings st @ map fst (filter (\<lambda>(k, u). mismatch u) (enumerate n (u # us)))"
      using st'(3) nm by (simp add: st1_def)
    ultimately show ?thesis by blast
  next
    case False
    let ?rs = "emb_records u"
    from attach_loop_unit[of "min (length ?ps) (length ?rs)" ?ps ?rs A ?B "emb_count st"]
    obtain cnt' where al: "attach_loop (length A) ?rs [0..<min (length ?ps) (length ?rs)]
        (A @ ?ps @ ?B, emb_count st) = Inr (A @ attached ?ps ?rs @ ?B, cnt')"
      by blast
    define st1 where "st1 = st\<lparr> ls_corpus := A @ attached ?ps ?rs @ ?B, emb_count := cnt',
                   corpus_index := corpus_index st + length ?ps,
                   warnings := (if length ?ps \<noteq> length ?rs then warnings st @ [n] else warnings st) \<rparr>"
    have c1: "ls_corpus st1 = (A @ attached ?ps ?rs) @ ?B" by (simp add: st1_def)
    have i1: "corpus_index st1 = length (A @ attached ?ps ?rs)"
      using Cons.prems(2) by (simp add: st1_def length_attached)
    from Cons.IH[OF c1 i1 ras, of "Suc n"] obtain st' where
      st': "load_embeddings_loop (enumerate (Suc n) us) st1 = Inr st'"
        "ls_corpus st' = (A @ attached ?ps ?rs) @ concat (map attach_unit us)"
        "warnings st' = warnings st1 @ map fst (filter (\<lambda>(k, u). mismatch u) (enumerate (Suc n) us))"
      by blast
    have step: "load_embeddings_loop ((n, u) # enumerate (Suc n) us) st =
                load_embeddings_loop (enumerate (Suc n) us) st1"
      unfolding loop_step_emb[OF False ra] using al Cons.prems by (simp add: st1_def)
    have mm: "mismatch u \<longleftrightarrow> length ?ps \<noteq> length ?rs" using False by (simp add: mismatch_def)
    have "load_embeddings_loop (enumerate n (u # us)) st = Inr st'"
      using st'(1) step by simp
    moreover have "ls_corpus st' = A @ concat (map attach_unit (u # us))"
      using st'(2) by (simp add: attach_unit_def)
    moreover have "warnings st' =
        warnings st @ map fst (filter (\<lambda>(k, u). mismatch u) (enumerate n (u # us)))"
      using st'(3) mm by (simp add: st1_def)
    ultimately show ?thesis by blast
  qed
qed

lemma load_embeddings_for_corpus_result:
  assumes "\<forall>u \<in> set units. read_alike u"
  shows "\<exists>st. load_embeddings_for_corpus (concat (map pages_of units)) units = Inr st \<and>
        ls_corpus st = concat (map attach_unit units) \<and>
        warnings st = filter (\<lambda>k. mismatch (units ! k)) [0..<length units]"
proof -
  define st0 where "st0 = \<lparr> ls_corpus = concat (map pages_of units), corpus_index = 0,
                            emb_count = 0, warnings = [] \<rparr>"
  have "ls_corpus st0 = [] @ concat (map pages_of units)" "corpus_index st0 = length ([] :: chunk list)"
    by (simp_all add: st0_def)
  from load_embeddings_loop_inv[OF this assms, of 0] obtain st' where
    st': "load_embeddings_loop (enumerate 0 units) st0 = Inr st'"
      "ls_corpus st' = [] @ concat (map attach_unit units)"
      "warnings st' = warnings st0 @ map fst (filter (\<lambda>(k, u). mismatch u) (enumerate 0 units))"
    by blast
  have "map fst (filter (\<lambda>(k, u). mismatch u) (enumerate 0 units)) =
        filter (\<lambda>k. mismatch (units ! k)) [0..<length units]"
    by (simp add: enumerate_as_map filter_map comp_def)
  with st' show ?thesis
    by (simp add: load_embeddings_for_corpus_def st0_def)
qed

text \<open>
  When both passes read every \<open>.json\<close> file alike, loading the embeddings does not fail
  and each unit's chunks stay at their positions: within a unit that has an embedding
  file, the chunks at the first \<open>min text_count embedding_count\<close> positions are paired with
  the embedding records at the same positions, the remaining chunks of the unit are left
  as they were, and the chunks of later units are aligned with their own files. The
  warning is printed once for each unit whose embedding file has a record count different
  from its text file, and for no other unit.
\<close>

lemma load_embeddings_alignment_read_alike:
  assumes "\<forall>u \<in> set units. read_alike u"
  shows "\<exists>st. load_embeddings_for_corpus (concat (map pages_of units)) units = Inr st \<and>
        ls_corpus st = concat (map attach_unit units) \<and>
        warnings st = filter (\<lambda>k. mismatch (units ! k)) [0..<length units] \<and>
        (\<forall>u \<in> set units. length (attach_unit u) = length (pages_of u) \<and>
           (\<forall>i < length (pages_of u). attach_unit u ! i =
              (if i < min (length (pages_of u)) (length (emb_records u))
               then attach (pages_of u ! i) (emb_records u ! i) else pages_of u ! i)))"
proof -
  from load_embeddings_for_corpus_result[OF assms] obtain st where
    st: "load_embeddings_for_corpus (concat (map pages_of units)) units = Inr st"
      "ls_corpus st = concat (map attach_unit units)"
      "warnings st = filter (\<lambda>k. mismatch (units ! k)) [0..<length units]"
    by blast
  have "length (attach_unit u) = length (pages_of u) \<and>
           (\<forall>i < length (pages_of u). attach_unit u ! i =
              (if i < min (length (pages_of u)) (length (emb_records u))
               then attach (pages_of u ! i) (emb_records u ! i) else pages_of u ! i))" for u
    by (simp add: attach_unit_def length_attached attached_nth)
  with st show ?thesis by blast
qed

lemma five_three_read_alike: "\<forall>u \<in> set five_three. read_alike u"
  by (simp add: five_three_def read_alike_def)

lemma five_three_attached:
  "concat (map attach_unit five_three) =
     [page_with ''p1'' [1], page_with ''p2'' [2], page_with ''p3'' [3], page ''p4'', page ''p5'',
      page_with ''q1'' [7]]"
  by (simp add: five_three_def attach_unit_def attached_def pages_of_def emb_records_def
        attach_def page_def page_with_def)

lemma five_three_mismatch:
  "filter (\<lambda>k. mismatch (five_three ! k)) [0..<length five_three] = [0]"
  by (simp add: five_three_def mismatch_def pages_of_def emb_records_def upt_rec)

lemma five_three_aligned:
  "\<exists>st. load_embeddings_for_corpus (concat (map pages_of five_three)) five_three = Inr st \<and>
        ls_corpus st =
          [page_with ''p1'' [1], page_with ''p2'' [2], page_with ''p3'' [3], page ''p4'',
           page ''p5'', page_with ''q1'' [7]] \<and>
        warnings st = [0]"
proof -
  from load_embeddings_alignment_read_alike[OF five_three_read_alike] obtain st where
    "load_embeddings_for_corpus (concat (map pages_of five_three)) five_three = Inr st"
    "ls_corpus st = concat (map attach_unit five_three)"
    "warnings st = filter (\<lambda>k. mismatch (five_three ! k)) [0..<length five_three]"
    by blast
  then show ?thesis
    by (intro exI[of _ st]) (simp only: five_three_attached five_three_mismatch simp_thms)
qed

lemma stray_units_expected:
  "concat (map attach_unit stray_units) =
     [page_with ''p1'' [1], page_with ''p2'' [2], page_with ''p3'' [3], page ''p4'', page ''p5'']"
  by (simp add: stray_units_def attach_unit_def attached_def pages_of_def emb_records_def
        attach_def page_def page_with_def)

text \<open>
  C8. The claim fails on a folder that holds, before a unit of five text records with
  three embedding records, a JSON file that is not a list of chunk records (an object with
  two keys). The first pass rejects that file, so the corpus is the five pages; the second
  pass still counts its two keys and moves \<open>corpus_index\<close> by two. The three embeddings
  are attached to the chunks at positions 2, 3 and 4 (chunks 3 to 5), chunks 1 and 2 stay
  without an embedding, where the claim pairs the first three chunks with the three
  records and leaves chunks 4 and 5 without. With an object of three keys the position
  \<open>corpus_index + 2\<close> is past the end of the corpus and the load raises \<open>IndexError\<close>, where
  the claim says the ingestion does not fail.
\<close>

theorem load_embeddings_stray_file:
  "load_embeddings_for_corpus (concat (map pages_of stray_units)) stray_units =
     Inr \<lparr> ls_corpus = [page ''p1'', page ''p2'', page_with ''p3'' [1], page_with ''p4'' [2],
                       page_with ''p5'' [3]],
           corpus_index = 7, emb_count = 3, warnings = [1] \<rparr> \<and>
   load_corpus_and_initialize_bm25 L stray_units =
     (case index L (tokenize L [str ''p1'', str ''p2'', str ''p3'', str ''p4'', str ''p5'']) of
        Inl e \<Rightarrow> Inl e
      | Inr model \<Rightarrow>
          Inr ([page ''p1'', page ''p2'', page_with ''p3'' [1], page_with ''p4'' [2],
                page_with ''p5'' [3]],
               Some model, [1], ''BM25 model successfully initialized.'')) \<and>
   concat (map attach_unit stray_units) =
     [page_with ''p1'' [1], page_with ''p2'' [2], page_with ''p3'' [3], page ''p4'', page ''p5''] \<and>
   load_embeddings_for_corpus (concat (map pages_of stray_units_three)) stray_units_three =
     Inl IndexError \<and>
   load_corpus_and_initialize_bm25 L stray_units_three =
     (case index L (tokenize L [str ''p1'', str ''p2'', str ''p3'', str ''p4'', str ''p5'']) of
        Inl e \<Rightarrow> Inl e
      | Inr model \<Rightarrow> Inl IndexError)"
  by (simp add: load_corpus_and_initialize_bm25_def load_embeddings_for_corpus_def
        stray_units_def stray_units_three_def pages_of_def num_pages_of_def bm25_texts_def
        page_def page_with_def attach_unit_def attached_def emb_records_def
        attach_def enumerate_eq_zip upt_rec Let_def split: sum.splits)

subsection \<open>Alignment of the BM25 index with the corpus\<close>

lemma doc_text_attach: "doc_text (attach d r) = doc_text d"
  by (cases r) (simp_all add: attach_def)

lemma doc_text_update:
  "k < length c \<Longrightarrow> map doc_text (c[k := (c ! k)\<lparr> doc_embedding := e \<rparr>]) = map doc_text c"
  by (rule nth_equalityI) (auto simp: nth_list_update)

lemma attach_loop_doc_text:
  "attach_loop ci rs js (c, n) = Inr (c', n') \<Longrightarrow> map doc_text c' = map doc_text c"
proof (induction js arbitrary: c n)
  case Nil
  then show ?case by simp
next
  case (Cons j js)
  from Cons.prems have inb: "ci + j < length c" by (simp split: if_splits)
  show ?case
  proof (cases "rs ! j")
    case None
    with Cons.prems inb have "attach_loop ci rs js (c, n) = Inr (c', n')" by simp
    then show ?thesis by (rule Cons.IH)
  next
    case (Some e)
    with Cons.prems inb have
      "attach_loop ci rs js (c[ci + j := (c ! (ci + j))\<lparr> doc_embedding := Some e \<rparr>], n + 1) = Inr (c', n')"
      by simp
    then have "map doc_text c' = map doc_text (c[ci + j := (c ! (ci + j))\<lparr> doc_embedding := Some e \<rparr>])"
      by (rule Cons.IH)
    then show ?thesis using inb by (simp only: doc_text_update)
  qed
qed

lemma load_embeddings_loop_doc_text:
  "load_embeddings_loop xs st = Inr st' \<Longrightarrow> map doc_text (ls_corpus st') = map doc_text (ls_corpus st)"
proof (induction xs arbitrary: st)
  case Nil
  then show ?case by simp
next
  case (Cons x xs)
  obtain k u where x: "x = (k, u)" by (cases x)
  from Cons.prems x obtain num_pages where np: "num_pages_of u = Inr num_pages"
    by (cases "num_pages_of u") simp_all
  show ?case
  proof (cases "emb_source u = No_emb_file")
    case True
    with Cons.prems x np have
      "load_embeddings_loop xs (st\<lparr> corpus_index := corpus_index st + num_pages \<rparr>) = Inr st'"
      by simp
    from Cons.IH[OF this] show ?thesis by simp
  next
    case False
    define rs where "rs = (case emb_source u of Emb_records rs \<Rightarrow> rs | _ \<Rightarrow> [])"
    define m where "m = (if num_pages \<noteq> length rs then min num_pages (length rs) else num_pages)"
    have step: "load_embeddings_loop (x # xs) st =
        (case attach_loop (corpus_index st) rs [0..<m] (ls_corpus st, emb_count st) of
           Inl e \<Rightarrow> Inl e
         | Inr (corpus, cnt) \<Rightarrow>
             load_embeddings_loop xs
               (st\<lparr> ls_corpus := corpus, emb_count := cnt,
                    corpus_index := corpus_index st + num_pages,
                    warnings := (if num_pages \<noteq> length rs then warnings st @ [k] else warnings st) \<rparr>))"
      using False np x by (cases "emb_source u") (simp_all add: Let_def rs_def m_def)
    from Cons.prems step obtain c cnt where
      al: "attach_loop (corpus_index st) rs [0..<m] (ls_corpus st, emb_count st) = Inr (c, cnt)"
      and rest: "load_embeddings_loop xs
               (st\<lparr> ls_corpus := c, emb_count := cnt,
                    corpus_index := corpus_index st + num_pages,
                    warnings := (if num_pages \<noteq> length rs then warnings st @ [k] else warnings st) \<rparr>) = Inr st'"
      by (cases "attach_loop (corpus_index st) rs [0..<m] (ls_corpus st, emb_count st)") auto
    from Cons.IH[OF rest] have "map doc_text (ls_corpus st') = map doc_text c" by simp
    with attach_loop_doc_text[OF al] show ?thesis by simp
  qed
qed

lemma bm25_texts_via_texts:
  "bm25_texts corpus = map the (filter (\<lambda>t. t \<noteq> None) (map doc_text corpus))"
  by (simp add: bm25_texts_def filter_map comp_def)

lemma bm25_texts_cong:
  "map doc_text a = map doc_text b \<Longrightarrow> bm25_texts a = bm25_texts b"
  by (simp only: bm25_texts_via_texts)

lemma bm25_texts_present: "bm25_texts corpus = present_texts corpus"
  by (simp add: bm25_texts_def present_texts_def map_filter_def comp_def)


lemma load_corpus_unfold:
  "load_corpus_and_initialize_bm25 L units =
     (if units = [] then Inr ([], None, [], ''No JSON files found in the selected folders.'')
      else if concat (map pages_of units) = []
      then Inr ([], None, [], ''No documents found in any JSON file.'')
      else if bm25_texts (concat (map pages_of units)) \<noteq> []
      then (case index L (tokenize L (bm25_texts (concat (map pages_of units)))) of
              Inl e \<Rightarrow> Inl e
            | Inr model \<Rightarrow>
                (case load_embeddings_for_corpus (concat (map pages_of units)) units of
                   Inl e \<Rightarrow> Inl e
                 | Inr st \<Rightarrow>
                     Inr (ls_corpus st, Some model, warnings st,
                          ''BM25 model successfully initialized.'')))
      else Inr (concat (map pages_of units), None, [], ''No textual data to build BM25 model.''))"
  unfolding load_corpus_and_initialize_bm25_def Let_def by (rule refl)

lemma load_corpus_model:
  assumes "load_corpus_and_initialize_bm25 L units = Inr (corpus, Some model, w, msg)"
  shows "map doc_text corpus = map doc_text (concat (map pages_of units))"
    and "index L (tokenize L (present_texts corpus)) = Inr model"
proof -
  define c0 where "c0 = concat (map pages_of units)"
  have unf: "load_corpus_and_initialize_bm25 L units =
     (if units = [] then Inr ([], None, [], ''No JSON files found in the selected folders.'')
      else if c0 = [] then Inr ([], None, [], ''No documents found in any JSON file.'')
      else if bm25_texts c0 \<noteq> []
      then (case index L (tokenize L (bm25_texts c0)) of
              Inl e \<Rightarrow> Inl e
            | Inr model \<Rightarrow>
                (case load_embeddings_for_corpus c0 units of
                   Inl e \<Rightarrow> Inl e
                 | Inr st \<Rightarrow>
                     Inr (ls_corpus st, Some model, warnings st,
                          ''BM25 model successfully initialized.'')))
      else Inr (c0, None, [], ''No textual data to build BM25 model.''))"
    unfolding load_corpus_unfold c0_def by (rule refl)
  from assms obtain st where
    ix: "index L (tokenize L (bm25_texts c0)) = Inr model"
    and st: "load_embeddings_for_corpus c0 units = Inr st"
    and c: "corpus = ls_corpus st"
    unfolding unf by (auto split: if_splits sum.splits)
  from st have "map doc_text (ls_corpus st) = map doc_text c0"
    unfolding load_embeddings_for_corpus_def
    by (simp add: load_embeddings_loop_doc_text del: load_embeddings_loop.simps)
  with c show dt: "map doc_text corpus = map doc_text (concat (map pages_of units))"
    by (simp add: c0_def)
  then have "bm25_texts corpus = bm25_texts c0" unfolding c0_def by (rule bm25_texts_cong)
  with ix show "index L (tokenize L (present_texts corpus)) = Inr model"
    by (simp add: bm25_texts_present)
qed





text \<open>
  Without the precondition the document index is no chunk id: when the first chunk of a
  folder has no \<open>'text'\<close> field, the only indexed document is the text of chunk 1, and the
  library's answer for it, document 0 with score 1, is returned as the pair of chunk 0,
  a chunk that has no text.
\<close>

lemma no_text_misaligned:
  "load_corpus_and_initialize_bm25 overlap_library no_text_units =
     Inr ([\<lparr> doc_text = None, doc_embedding = None \<rparr>, page ''green tea''],
          Some [[str ''green'', str ''tea'']], [], ''BM25 model successfully initialized.'') \<and>
   bm25_retrieval overlap_library [[str ''green'', str ''tea'']]
     [\<lparr> doc_text = None, doc_embedding = None \<rparr>, page ''green tea''] (str ''tea'') = Inr [(0, 1)]"
  by code_simp



subsection \<open>Tokenization on the BM25 path\<close>

lemma present_texts_lower:
  "map f (present_texts corpus) = List.map_filter id (map (map_option f \<circ> doc_text) corpus)"
  unfolding present_texts_def
  by (induction corpus) (simp_all add: map_filter_simps split: option.splits)

lemma latin_lower_idem: "latin_lower (latin_lower s) = latin_lower s"
  by (induction s) (auto simp: latin_lower_def)

lemma overlap_library_lowercasing: "lowercasing latin overlap_library"
  by (simp add: lowercasing_def overlap_library_def latin_def latin_lower_idem comp_def)

text \<open>
  C2 (as amended). The program hands the raw texts of the chunks and the raw query to one
  and the same tokenizer of the library and folds no case and strips no accent of its own
  on this path: the model is the index of the tokens of the raw texts, and the ranking is
  computed from the library's answer for the tokens of the raw query. When the tokenizer
  of the library folds case, letter case does not matter: the model is also the index of
  the tokens of the lower-cased texts, the ranking is the one computed from the tokens of
  the lower-cased query, and two loads whose chunk texts are equal up to letter case,
  queried with queries equal up to letter case, give the same model and the same ranking.
\<close>

theorem bm25_retrieval_case_folding:
  assumes "lowercasing U L"
    and "load_corpus_and_initialize_bm25 L units1 = Inr (corpus1, Some model1, w1, msg1)"
    and "load_corpus_and_initialize_bm25 L units2 = Inr (corpus2, Some model2, w2, msg2)"
    and "map (map_option (lower U) \<circ> doc_text) corpus1 = map (map_option (lower U) \<circ> doc_text) corpus2"
    and "lower U q1 = lower U q2"
  shows "index L (tokenize L (present_texts corpus1)) = Inr model1 \<and>
         index L (tokenize L (map (lower U) (present_texts corpus1))) = Inr model1 \<and>
         bm25_retrieval L model1 corpus1 q1 =
           (case retrieve L model1 (tokenize L [q1]) (length corpus1) of
              Inl e \<Rightarrow> Inl e
            | Inr (ids, scores) \<Rightarrow>
                if length scores < length ids then Inl IndexError
                else Inr (take MAX_SEARCH_RESULTS (sort_reverse snd (zip ids scores)))) \<and>
         bm25_retrieval L model1 corpus1 q1 =
           (case retrieve L model1 (tokenize L [lower U q1]) (length corpus1) of
              Inl e \<Rightarrow> Inl e
            | Inr (ids, scores) \<Rightarrow>
                if length scores < length ids then Inl IndexError
                else Inr (take MAX_SEARCH_RESULTS (sort_reverse snd (zip ids scores)))) \<and>
         model2 = model1 \<and>
         bm25_retrieval L model2 corpus2 q2 = bm25_retrieval L model1 corpus1 q1"
proof -
  have low: "tokenize L (map (lower U) texts) = tokenize L texts" for texts
    using assms(1) by (simp add: lowercasing_def)
  have m1: "index L (tokenize L (present_texts corpus1)) = Inr model1"
    using assms(2) by (rule load_corpus_model)
  have m2: "index L (tokenize L (present_texts corpus2)) = Inr model2"
    using assms(3) by (rule load_corpus_model)
  have "map (lower U) (present_texts corpus1) = map (lower U) (present_texts corpus2)"
    by (simp only: present_texts_lower assms(4))
  then have "tokenize L (map (lower U) (present_texts corpus1)) =
             tokenize L (map (lower U) (present_texts corpus2))"
    by simp
  then have toks: "tokenize L (present_texts corpus1) = tokenize L (present_texts corpus2)"
    by (simp only: low)
  with m1 m2 have eq: "model2 = model1" by simp
  have "length (map (map_option (lower U) \<circ> doc_text) corpus1) =
        length (map (map_option (lower U) \<circ> doc_text) corpus2)"
    by (simp only: assms(4))
  then have len: "length corpus2 = length corpus1" by simp
  have q: "tokenize L [q] = tokenize L [lower U q]" for q
    using low[of "[q]"] by simp
  have q12: "tokenize L [q2] = tokenize L [q1]"
    using q[of q1] q[of q2] assms(5) by simp
  have r1: "bm25_retrieval L model1 corpus1 q1 =
           (case retrieve L model1 (tokenize L [q1]) (length corpus1) of
              Inl e \<Rightarrow> Inl e
            | Inr (ids, scores) \<Rightarrow>
                if length scores < length ids then Inl IndexError
                else Inr (take MAX_SEARCH_RESULTS (sort_reverse snd (zip ids scores))))"
    by (simp add: bm25_retrieval_def Let_def split: sum.splits prod.splits)
  have r2: "bm25_retrieval L model2 corpus2 q2 = bm25_retrieval L model1 corpus1 q1"
    by (simp add: bm25_retrieval_def eq len q12)
  from m1 have m1': "index L (tokenize L (map (lower U) (present_texts corpus1))) = Inr model1"
    by (simp only: low)
  from r1 have r1': "bm25_retrieval L model1 corpus1 q1 =
           (case retrieve L model1 (tokenize L [lower U q1]) (length corpus1) of
              Inl e \<Rightarrow> Inl e
            | Inr (ids, scores) \<Rightarrow>
                if length scores < length ids then Inl IndexError
                else Inr (take MAX_SEARCH_RESULTS (sort_reverse snd (zip ids scores))))"
    by (simp only: q[of q1, symmetric])
  from m1 m1' r1 r1' eq r2 show ?thesis by (intro conjI)
qed

lemma cafe_upper_load:
  "load_corpus_and_initialize_bm25 overlap_library cafe_upper_units =
     Inr ([page ''Le CAFE''], Some [[str ''le'', str ''cafe'']], [],
          ''BM25 model successfully initialized.'')"
  by code_simp

lemma cafe_lower_load:
  "load_corpus_and_initialize_bm25 overlap_library cafe_lower_units =
     Inr ([page ''le cafe''], Some [[str ''le'', str ''cafe'']], [],
          ''BM25 model successfully initialized.'')"
  by code_simp

lemma cafe_texts:
  "map (map_option (lower latin) \<circ> doc_text) [page ''Le CAFE''] =
   map (map_option (lower latin) \<circ> doc_text) [page ''le cafe'']"
  "lower latin (str ''Cafe'') = lower latin (str ''cafe'')"
  by code_simp+

lemma cafe_lower_retrieval:
  "bm25_retrieval overlap_library [[str ''le'', str ''cafe'']] [page ''le cafe''] (str ''cafe'') =
     Inr [(0, 1)]"
  by code_simp

theorem bm25_retrieval_case_folding_witness:
  "load_corpus_and_initialize_bm25 overlap_library cafe_upper_units =
     Inr ([page ''Le CAFE''], Some [[str ''le'', str ''cafe'']], [],
          ''BM25 model successfully initialized.'') \<and>
   bm25_retrieval overlap_library [[str ''le'', str ''cafe'']] [page ''Le CAFE''] (str ''Cafe'') =
     Inr [(0, 1)]"
proof -
  from bm25_retrieval_case_folding[OF overlap_library_lowercasing cafe_lower_load cafe_upper_load
      cafe_texts(1)[symmetric] cafe_texts(2)[symmetric]]
  have "bm25_retrieval overlap_library [[str ''le'', str ''cafe'']] [page ''Le CAFE''] (str ''Cafe'') =
        bm25_retrieval overlap_library [[str ''le'', str ''cafe'']] [page ''le cafe''] (str ''cafe'')"
    by blast
  with cafe_upper_load cafe_lower_retrieval show ?thesis by simp
qed

text \<open>
  The claim as stated fails for accents when the library tokenizer folds case only: the
  query with the accented letter and the indexed word \<open>CAFE\<close> are equal after case folding
  and accent stripping, yet the query scores 0 on the chunk, while the unaccented query
  scores 1.
\<close>

theorem bm25_diacritics_counterexample:
  "case_folded_accent_stripped latin cafe_acute = case_folded_accent_stripped latin (str ''CAFE'') \<and>
   load_corpus_and_initialize_bm25 overlap_library cafe_upper_units =
     Inr ([page ''Le CAFE''], Some [[str ''le'', str ''cafe'']], [],
          ''BM25 model successfully initialized.'') \<and>
   bm25_retrieval overlap_library [[str ''le'', str ''cafe'']] [page ''Le CAFE''] cafe_acute = Inr [(0, 0)] \<and>
   bm25_retrieval overlap_library [[str ''le'', str ''cafe'']] [page ''Le CAFE''] (str ''cafe'') = Inr [(0, 1)]"
proof -
  have "case_folded_accent_stripped latin cafe_acute = case_folded_accent_stripped latin (str ''CAFE'')"
    by code_simp
  moreover have "bm25_retrieval overlap_library [[str ''le'', str ''cafe'']] [page ''Le CAFE''] cafe_acute =
      Inr [(0, 0)]"
    by code_simp
  moreover have "bm25_retrieval overlap_library [[str ''le'', str ''cafe'']] [page ''Le CAFE''] (str ''cafe'') =
      Inr [(0, 1)]"
    by code_simp
  ultimately show ?thesis using cafe_upper_load by simp
qed

subsection \<open>Minimal span score\<close>

text \<open>The two-pointer scan is correct when the normalised terms are pairwise distinct.\<close>

lemma positions_filter: "positions W t = filter (\<lambda>i. W ! i = t) [0..<length W]"
  using enumerate_filter_nth[of "\<lambda>w. w = t" 0 W] by (simp add: positions_def)

lemma positions_empty_iff: "positions W t = [] \<longleftrightarrow> t \<notin> set W"
  by (auto simp: positions_filter filter_empty_conv in_set_conv_nth)

lemma set_positions: "set (positions W t) = {p. p < length W \<and> W ! p = t}"
  by (auto simp: positions_filter)

lemma distinct_positions_concat:
  "distinct T \<Longrightarrow> distinct (concat (map (positions W) T))"
proof (induction T)
  case Nil
  then show ?case by simp
next
  case (Cons t T)
  have "distinct (positions W t)" by (simp add: positions_filter)
  moreover have "set (positions W t) \<inter> set (concat (map (positions W) T)) = {}"
    using Cons.prems by (auto simp: set_positions)
  ultimately show ?case using Cons by simp
qed

lemma all_positions_of_ok:
  assumes "distinct T"
  shows "occurrences_ok W T (all_positions_of W T)"
proof -
  define C where "C = concat (map (\<lambda>t. map (\<lambda>p. (p, t)) (positions W t)) T)"
  define A where "A = all_positions_of W T"
  have A: "A = sort_key fst C" by (simp add: A_def C_def all_positions_of_def)
  have setA: "set A = {(p, t). t \<in> set T \<and> p < length W \<and> W ! p = t}"
    unfolding A by (auto simp: C_def set_positions)
  have "map fst C = concat (map (positions W) T)"
    by (simp add: C_def map_concat comp_def)
  then have dC: "distinct (map fst C)" using distinct_positions_concat[OF assms] by simp
  have "mset (map fst A) = mset (map fst C)" unfolding A by simp
  then have dA: "distinct (map fst A)" using dC by (metis mset_eq_imp_distinct_iff)
  have sA: "sorted (map fst A)" unfolding A by simp
  have s: "sorted_wrt (<) (map fst A)" using sA dA by (simp add: strict_sorted_iff)
  have 2: "fst (A ! k) < length W \<and> W ! fst (A ! k) = snd (A ! k) \<and> snd (A ! k) \<in> set T"
    if "k < length A" for k
  proof -
    from that have "A ! k \<in> set A" by simp
    then show ?thesis unfolding setA by (cases "A ! k") auto
  qed
  have 3: "\<exists>k < length A. A ! k = (p, W ! p)" if "p < length W" "W ! p \<in> set T" for p
  proof -
    from that have "(p, W ! p) \<in> set A" unfolding setA by simp
    then show ?thesis by (simp add: in_set_conv_nth)
  qed
  show ?thesis unfolding occurrences_ok_def A_def[symmetric] using s 2 3 by blast
qed

lemma occ_mono:
  assumes "occurrences_ok W T A" and "k \<le> k'" and "k' < length A"
  shows "fst (A ! k) \<le> fst (A ! k')"
proof (cases "k = k'")
  case True
  then show ?thesis by simp
next
  case False
  with assms have "k < k'" by simp
  moreover from assms have "sorted_wrt (<) (map fst A)" by (simp add: occurrences_ok_def)
  ultimately have "map fst A ! k < map fst A ! k'"
    using assms(3) by (intro sorted_wrt_nth_less) simp_all
  then show ?thesis using assms(2,3) by simp
qed

lemma occ_word:
  assumes "occurrences_ok W T A" and "k < length A"
  shows "fst (A ! k) < length W" and "W ! fst (A ! k) = snd (A ! k)" and "snd (A ! k) \<in> set T"
  using assms by (simp_all add: occurrences_ok_def)

lemma occ_find:
  assumes "occurrences_ok W T A" and "p < length W" and "W ! p \<in> set T"
  shows "\<exists>k < length A. A ! k = (p, W ! p)"
  using assms by (simp add: occurrences_ok_def)

lemma covers_occurrence:
  assumes ok: "occurrences_ok W T A" and c: "covers W T i j" and u: "u \<in> set T"
  shows "\<exists>k < length A. snd (A ! k) = u \<and> i \<le> fst (A ! k) \<and> fst (A ! k) \<le> j"
proof -
  from c u obtain p where p: "i \<le> p" "p \<le> j" "W ! p = u" "j < length W"
    by (auto simp: covers_def)
  then have "p < length W" "W ! p \<in> set T" using u by simp_all
  from occ_find[OF ok this] obtain k where "k < length A" "A ! k = (p, W ! p)" by blast
  with p show ?thesis by (intro exI[of _ k]) simp
qed

lemma span_pre_init:
  assumes ok: "occurrences_ok W T A" and ne: "T \<noteq> []"
  shows "span_pre W T A 0 [] 0 (length W + 1)"
proof -
  have "length W + 1 \<le> j - i + 1"
    if c: "covers W T i j" and b: "\<forall>k. 0 \<le> k \<and> k < length A \<longrightarrow> j < fst (A ! k)" for i j
  proof -
    from ne obtain u where "u \<in> set T" by (cases T) auto
    from covers_occurrence[OF ok c this] obtain k where
      "k < length A" "fst (A ! k) \<le> j" by blast
    with b show ?thesis by force
  qed
  then show ?thesis by (simp add: span_pre_def)
qed

lemma pre_to_inv:
  assumes ok: "occurrences_ok W T A" and pre: "span_pre W T A r found left best"
    and r: "r < length A" and Ar: "A ! r = (p, t)"
  shows "span_inv W T A r (AList.update t p found) left best"
proof -
  let ?f = "AList.update t p found"
  have m: "map_of ?f = (map_of found)(t \<mapsto> p)" by (rule update_conv')
  from pre have lr: "left \<le> r" and d: "distinct (map fst found)"
    and dom: "dom (map_of found) \<subseteq> set T"
    and P2: "\<And>u q. map_of found u = Some q \<Longrightarrow>
        \<exists>k. left \<le> k \<and> k < r \<and> A ! k = (q, u) \<and> (\<forall>k' < r. snd (A ! k') = u \<longrightarrow> k' \<le> k)"
    and P4: "\<And>k. k < r \<Longrightarrow> map_of found (snd (A ! k)) = None \<Longrightarrow>
        best \<le> fst (A ! (r - 1)) - fst (A ! k) + 1"
    and P5: "\<And>i j. covers W T i j \<Longrightarrow> (\<forall>k. r \<le> k \<and> k < length A \<longrightarrow> j < fst (A ! k)) \<Longrightarrow>
        best \<le> j - i + 1"
    and P6: "best = length W + 1 \<or> (\<exists>i j. covers W T i j \<and> best = j - i + 1)"
    unfolding span_pre_def by blast+
  have tT: "t \<in> set T" using occ_word(3)[OF ok r] Ar by simp
  have 1: "distinct (map fst ?f)" using d by (simp add: distinct_update)
  have 2: "dom (map_of ?f) \<subseteq> set T" using dom tT by (simp add: m)
  have 3: "\<exists>k. left \<le> k \<and> k \<le> r \<and> A ! k = (q, u) \<and> (\<forall>k' \<le> r. snd (A ! k') = u \<longrightarrow> k' \<le> k)"
    if "map_of ?f u = Some q" for u q
  proof (cases "u = t")
    case True
    with that have "q = p" by (simp add: m)
    with True lr Ar show ?thesis by (intro exI[of _ r]) simp
  next
    case False
    with that have "map_of found u = Some q" by (simp add: m)
    from P2[OF this] obtain k where k: "left \<le> k" "k < r" "A ! k = (q, u)"
      "\<forall>k' < r. snd (A ! k') = u \<longrightarrow> k' \<le> k" by blast
    have "k' \<le> k" if "k' \<le> r" "snd (A ! k') = u" for k'
    proof -
      from that False Ar have "k' \<noteq> r" by auto
      with that k(4) show ?thesis by simp
    qed
    with k show ?thesis by (intro exI[of _ k]) simp
  qed
  have 4: "best \<le> fst (A ! r) - fst (A ! k) + 1"
    if "k \<le> r" "map_of ?f (snd (A ! k)) = None" for k
  proof -
    from that(2) have ne: "snd (A ! k) \<noteq> t" and none: "map_of found (snd (A ! k)) = None"
      by (auto simp: m split: if_splits)
    from ne Ar that(1) have kr: "k < r" by (cases "k = r") auto
    from P4[OF kr none] have "best \<le> fst (A ! (r - 1)) - fst (A ! k) + 1" .
    moreover have "fst (A ! (r - 1)) \<le> fst (A ! r)" using occ_mono[OF ok _ r, of "r - 1"] by simp
    ultimately show ?thesis by linarith
  qed
  have 5: "best \<le> j - i + 1" if "covers W T i j" "j < fst (A ! r)" for i j
  proof (rule P5[OF that(1)], intro allI impI)
    fix k assume "r \<le> k \<and> k < length A"
    then have "fst (A ! r) \<le> fst (A ! k)" using occ_mono[OF ok, of r k] by simp
    with that(2) show "j < fst (A ! k)" by simp
  qed
  show ?thesis
    unfolding span_inv_def using r lr 1 2 3 4 5 P6 by (simp add: le_Suc_eq)
qed

lemma length_found_card:
  "distinct (map fst found) \<Longrightarrow> length found = card (dom (map_of found))"
proof -
  assume d: "distinct (map fst found)"
  have "length found = length (map fst found)" by simp
  also have "\<dots> = card (set (map fst found))" using distinct_card[OF d] by (simp only:)
  also have "\<dots> = card (dom (map_of found))" by (simp add: dom_map_of_conv_image_fst)
  finally show ?thesis .
qed

lemma full_dom:
  assumes "distinct T" and "distinct (map fst found)" and "dom (map_of found) \<subseteq> set T"
    and "length found = length T"
  shows "dom (map_of found) = set T"
proof -
  have "card (dom (map_of found)) = card (set T)"
    using assms(1,2,4) by (simp add: length_found_card distinct_card)
  with assms(3) show ?thesis by (intro card_subset_eq) simp_all
qed

lemma not_full_missing:
  assumes "distinct T" and "distinct (map fst found)" and "dom (map_of found) \<subseteq> set T"
    and "length found \<noteq> length T"
  shows "\<exists>u \<in> set T. map_of found u = None"
proof (rule ccontr)
  assume "\<not> (\<exists>u \<in> set T. map_of found u = None)"
  then have "set T \<subseteq> dom (map_of found)" by auto
  with assms(3) have "dom (map_of found) = set T" by blast
  then have "card (dom (map_of found)) = card (set T)" by simp
  then have "length found = length T"
    using assms(1,2) by (simp add: length_found_card distinct_card)
  with assms(4) show False by simp
qed

text \<open>Facts about a full dictionary inside the loop.\<close>

lemma full_facts:
  assumes ok: "occurrences_ok W T A" and dT: "distinct T" and ne: "T \<noteq> []"
    and inv: "span_inv W T A r found left best" and full: "length found = length T"
  shows "found \<noteq> []" and "left \<le> r" and "left < length A"
    and "\<forall>q \<in> snd ` set found. fst (A ! left) \<le> q \<and> q \<le> fst (A ! r)"
    and "span_of found \<le> fst (A ! r) - fst (A ! left) + 1"
    and "\<exists>i j. covers W T i j \<and> span_of found = j - i + 1"
proof -
  from inv have r: "r < length A" and d: "distinct (map fst found)"
    and dom: "dom (map_of found) \<subseteq> set T"
    and M2: "\<And>u q. map_of found u = Some q \<Longrightarrow>
        \<exists>k. left \<le> k \<and> k \<le> r \<and> A ! k = (q, u) \<and> (\<forall>k' \<le> r. snd (A ! k') = u \<longrightarrow> k' \<le> k)"
    unfolding span_inv_def by blast+
  show ne_found: "found \<noteq> []" using full ne by auto
  have entry: "\<exists>k. left \<le> k \<and> k \<le> r \<and> A ! k = (q, u)" if "(u, q) \<in> set found" for u q
  proof -
    from that d have "map_of found u = Some q" by simp
    from M2[OF this] show ?thesis by blast
  qed
  from ne_found obtain u0 q0 where "(u0, q0) \<in> set found" by (cases found) auto
  from entry[OF this] obtain k0 where "left \<le> k0" "k0 \<le> r" by blast
  then show lr: "left \<le> r" by simp
  then show "left < length A" using r by simp
  show bounds: "\<forall>q \<in> snd ` set found. fst (A ! left) \<le> q \<and> q \<le> fst (A ! r)"
  proof
    fix q assume "q \<in> snd ` set found"
    then obtain u where "(u, q) \<in> set found" by force
    from entry[OF this] obtain k where k: "left \<le> k" "k \<le> r" "A ! k = (q, u)" by blast
    have "fst (A ! left) \<le> fst (A ! k)" using occ_mono[OF ok k(1)] k(2) r by simp
    moreover have "fst (A ! k) \<le> fst (A ! r)" using occ_mono[OF ok k(2) r] .
    ultimately show "fst (A ! left) \<le> q \<and> q \<le> fst (A ! r)" using k(3) by simp
  qed
  define V where "V = snd ` set found"
  have fin: "finite V" and neV: "V \<noteq> {}" using ne_found by (simp_all add: V_def)
  have span: "span_of found = Max V - Min V + 1" by (simp add: span_of_def V_def)
  have maxb: "Max V \<le> fst (A ! r)" using bounds fin neV by (simp add: V_def)
  have minb: "fst (A ! left) \<le> Min V" using bounds fin neV by (simp add: V_def)
  show "span_of found \<le> fst (A ! r) - fst (A ! left) + 1"
    unfolding span using maxb minb by linarith
  have domT: "dom (map_of found) = set T" by (rule full_dom[OF dT d dom full])
  have "covers W T (Min V) (Max V)"
    unfolding covers_def
  proof (intro conjI ballI)
    show "Min V \<le> Max V" using fin neV by (simp add: Min_le_iff)
    have "Max V \<in> V" using fin neV by (rule Max_in)
    then obtain u where "(u, Max V) \<in> set found" unfolding V_def by force
    from entry[OF this] obtain k where "k \<le> r" "A ! k = (Max V, u)" by blast
    then show "Max V < length W" using occ_word(1)[OF ok, of k] r by simp
  next
    fix t assume "t \<in> set T"
    then obtain q where q: "map_of found t = Some q" using domT by blast
    then have mem: "(t, q) \<in> set found" by (rule map_of_SomeD)
    from M2[OF q] obtain k where k: "k \<le> r" "A ! k = (q, t)" by blast
    have "W ! q = t" using occ_word(2)[OF ok, of k] k r by simp
    moreover have "q \<in> V" using mem unfolding V_def by force
    then have "Min V \<le> q" "q \<le> Max V" using fin by simp_all
    ultimately show "\<exists>p. Min V \<le> p \<and> p \<le> Max V \<and> W ! p = t" by blast
  qed
  then show "\<exists>i j. covers W T i j \<and> span_of found = j - i + 1"
    using span by blast
qed

lemma inv_step:
  assumes ok: "occurrences_ok W T A" and dT: "distinct T" and ne: "T \<noteq> []"
    and inv: "span_inv W T A r found left best" and full: "length found = length T"
  shows "span_inv W T A r (drop_left A left found) (left + 1)
           (if span_of found < best then span_of found else best)"
proof -
  define pl where "pl = fst (A ! left)"
  define tl where "tl = snd (A ! left)"
  define found' where "found' = drop_left A left found"
  define best' where "best' = (if span_of found < best then span_of found else best)"
  have Al: "A ! left = (pl, tl)" by (simp add: pl_def tl_def)
  from inv have r: "r < length A" and d: "distinct (map fst found)"
    and dom: "dom (map_of found) \<subseteq> set T"
    and M2: "\<And>u q. map_of found u = Some q \<Longrightarrow>
        \<exists>k. left \<le> k \<and> k \<le> r \<and> A ! k = (q, u) \<and> (\<forall>k' \<le> r. snd (A ! k') = u \<longrightarrow> k' \<le> k)"
    and M4: "\<And>k. k \<le> r \<Longrightarrow> map_of found (snd (A ! k)) = None \<Longrightarrow>
        best \<le> fst (A ! r) - fst (A ! k) + 1"
    and M5: "\<And>i j. covers W T i j \<Longrightarrow> j < fst (A ! r) \<Longrightarrow> best \<le> j - i + 1"
    and M6: "best = length W + 1 \<or> (\<exists>i j. covers W T i j \<and> best = j - i + 1)"
    unfolding span_inv_def by blast+
  note ff = full_facts[OF ok dT ne inv full]
  have lr: "left \<le> r" by (rule ff(2))
  have b_le: "best' \<le> best" and b_span: "best' \<le> span_of found"
    and b_cases: "best' = best \<or> best' = span_of found"
    by (simp_all add: best'_def)
  have m': "map_of found' =
      (if map_of found tl = Some pl then (map_of found)(tl := None) else map_of found)"
    by (simp add: found'_def drop_left_def Let_def pl_def tl_def delete_conv')
  have sub: "map_of found' u = Some q \<Longrightarrow> map_of found u = Some q" for u q
    by (simp add: m' split: if_splits)
  have 1: "distinct (map fst found')"
    using d by (simp add: found'_def drop_left_def Let_def distinct_delete)
  have 2: "dom (map_of found') \<subseteq> set T"
    using dom sub by (meson domD domI subsetD subsetI)
  have 3: "\<exists>k. left + 1 \<le> k \<and> k \<le> r \<and> A ! k = (q, u) \<and> (\<forall>k' \<le> r. snd (A ! k') = u \<longrightarrow> k' \<le> k)"
    if h: "map_of found' u = Some q" for u q
  proof -
    from M2[OF sub[OF h]] obtain k where k: "left \<le> k" "k \<le> r" "A ! k = (q, u)"
      "\<forall>k' \<le> r. snd (A ! k') = u \<longrightarrow> k' \<le> k" by blast
    have "k \<noteq> left"
    proof
      assume "k = left"
      with k(3) Al have "u = tl" "q = pl" by simp_all
      with sub[OF h] have "map_of found tl = Some pl" by simp
      then have "map_of found' tl = None" by (simp add: m')
      with h \<open>u = tl\<close> show False by simp
    qed
    with k show ?thesis by (intro exI[of _ k]) simp
  qed
  have 4: "best' \<le> fst (A ! r) - fst (A ! k) + 1"
    if kr: "k \<le> r" and none: "map_of found' (snd (A ! k)) = None" for k
  proof (cases "map_of found (snd (A ! k)) = None")
    case True
    from M4[OF kr True] b_le show ?thesis by simp
  next
    case False
    with none have del: "map_of found tl = Some pl" and eq: "snd (A ! k) = tl"
      by (auto simp: m' split: if_splits)
    from M2[OF del] obtain k0 where k0: "left \<le> k0" "k0 \<le> r" "A ! k0 = (pl, tl)"
      "\<forall>k' \<le> r. snd (A ! k') = tl \<longrightarrow> k' \<le> k0" by blast
    from k0(4) kr eq have "k \<le> k0" by simp
    then have "fst (A ! k) \<le> fst (A ! k0)" using occ_mono[OF ok, of k k0] k0(2) r by simp
    then have "fst (A ! k) \<le> fst (A ! left)" using k0(3) Al by simp
    moreover have "span_of found \<le> fst (A ! r) - fst (A ! left) + 1" by (rule ff(5))
    ultimately show ?thesis using b_span by linarith
  qed
  have 5: "best' \<le> j - i + 1" if "covers W T i j" "j < fst (A ! r)" for i j
    using M5[OF that] b_le by simp
  have 6: "best' = length W + 1 \<or> (\<exists>i j. covers W T i j \<and> best' = j - i + 1)"
    using b_cases M6 ff(6) by auto
  have "span_inv W T A r found' (left + 1) best'"
    unfolding span_inv_def using r lr 1 2 3 4 5 6 by simp
  then show ?thesis by (simp only: found'_def best'_def)
qed

lemma inv_exit:
  assumes ok: "occurrences_ok W T A" and dT: "distinct T"
    and inv: "span_inv W T A r found left best" and nfull: "length found \<noteq> length T"
  shows "span_pre W T A (Suc r) found left best"
proof -
  from inv have r: "r < length A" and l: "left \<le> Suc r" and d: "distinct (map fst found)"
    and dom: "dom (map_of found) \<subseteq> set T"
    and M2: "\<And>u q. map_of found u = Some q \<Longrightarrow>
        \<exists>k. left \<le> k \<and> k \<le> r \<and> A ! k = (q, u) \<and> (\<forall>k' \<le> r. snd (A ! k') = u \<longrightarrow> k' \<le> k)"
    and M4: "\<And>k. k \<le> r \<Longrightarrow> map_of found (snd (A ! k)) = None \<Longrightarrow>
        best \<le> fst (A ! r) - fst (A ! k) + 1"
    and M5: "\<And>i j. covers W T i j \<Longrightarrow> j < fst (A ! r) \<Longrightarrow> best \<le> j - i + 1"
    and M6: "best = length W + 1 \<or> (\<exists>i j. covers W T i j \<and> best = j - i + 1)"
    unfolding span_inv_def by blast+
  have 3: "\<exists>k. left \<le> k \<and> k < Suc r \<and> A ! k = (q, u) \<and> (\<forall>k' < Suc r. snd (A ! k') = u \<longrightarrow> k' \<le> k)"
    if "map_of found u = Some q" for u q
    using M2[OF that] by (simp add: less_Suc_eq_le)
  have 4: "best \<le> fst (A ! (Suc r - 1)) - fst (A ! k) + 1"
    if "k < Suc r" "map_of found (snd (A ! k)) = None" for k
    using M4[of k] that by simp
  have 5: "best \<le> j - i + 1"
    if c: "covers W T i j" and b: "\<forall>k. Suc r \<le> k \<and> k < length A \<longrightarrow> j < fst (A ! k)" for i j
  proof (cases "j < fst (A ! r)")
    case True
    from M5[OF c True] show ?thesis .
  next
    case False
    from not_full_missing[OF dT d dom nfull] obtain u where u: "u \<in> set T" "map_of found u = None"
      by blast
    from covers_occurrence[OF ok c u(1)] obtain k where k: "k < length A" "snd (A ! k) = u"
      "i \<le> fst (A ! k)" "fst (A ! k) \<le> j" by blast
    have "k \<le> r"
    proof (rule ccontr)
      assume "\<not> k \<le> r"
      then have "Suc r \<le> k" by simp
      with b k(1) have "j < fst (A ! k)" by blast
      with k(4) show False by simp
    qed
    from M4[OF this] u(2) k(2) have "best \<le> fst (A ! r) - fst (A ! k) + 1" by simp
    with False k(3) show ?thesis by linarith
  qed
  show ?thesis
    unfolding span_pre_def using r l d dom 3 4 5 M6 by simp
qed

lemma span_while_correct:
  assumes dT: "distinct T" and ne: "T \<noteq> []"
  shows "occurrences_ok W T A \<Longrightarrow> n = length T \<Longrightarrow> span_inv W T A r found left best \<Longrightarrow>
         \<exists>found' left' best'. span_while A n found left best = Inr (found', left', best') \<and>
           span_pre W T A (Suc r) found' left' best'"
proof (induction A n found left best rule: span_while.induct)
  case (1 A n found left best)
  note ok = "1.prems"(1) and n = "1.prems"(2) and inv = "1.prems"(3)
  show ?case
  proof (cases "length found = n")
    case True
    then have full: "length found = length T" using n by simp
    note ff = full_facts[OF ok dT ne inv full]
    have c1: "found \<noteq> []" and c2: "\<not> length A \<le> left" using ff(1,3) by simp_all
    have "span_inv W T A r (drop_left A left found) (left + 1)
            (if span_of found < best then span_of found else best)"
      by (rule inv_step[OF ok dT ne inv full])
    from "1.IH"[OF True c1 c2 ok n this]
    obtain found' left' best' where
      "span_while A n (drop_left A left found) (left + 1)
         (if span_of found < best then span_of found else best) = Inr (found', left', best')"
      "span_pre W T A (Suc r) found' left' best'"
      by blast
    moreover have "span_while A n found left best =
        span_while A n (drop_left A left found) (left + 1)
         (if span_of found < best then span_of found else best)"
      using True c1 c2 by (subst span_while.simps) simp
    ultimately show ?thesis by auto
  next
    case False
    then have nfull: "length found \<noteq> length T" using n by simp
    have "span_pre W T A (Suc r) found left best"
      by (rule inv_exit[OF ok dT inv nfull])
    moreover have "span_while A n found left best = Inr (found, left, best)"
      using False by (subst span_while.simps) simp
    ultimately show ?thesis by auto
  qed
qed

lemma span_for_correct:
  assumes ok: "occurrences_ok W T A" and dT: "distinct T" and ne: "T \<noteq> []"
  shows "span_pre W T A r found left best \<Longrightarrow> rest = drop r A \<Longrightarrow>
         \<exists>found' left' best'. span_for A (length T) rest (found, left, best) = Inr (found', left', best') \<and>
           span_pre W T A (length A) found' left' best'"
proof (induction rest arbitrary: r found left best)
  case Nil
  then have "length A \<le> r" by simp
  moreover from Nil.prems(1) have "r \<le> length A" by (simp add: span_pre_def)
  ultimately have "r = length A" by simp
  with Nil.prems(1) show ?case by simp
next
  case (Cons x rest)
  obtain p t where x: "x = (p, t)" by (cases x)
  from Cons.prems(2) have r: "r < length A"
    by (metis drop_all list.distinct(1) not_le)
  have "x # rest = A ! r # drop (Suc r) A"
    using Cons.prems(2) Cons_nth_drop_Suc[OF r] by simp
  then have Ar: "A ! r = (p, t)" and rest: "rest = drop (Suc r) A"
    using x by simp_all
  have "span_inv W T A r (AList.update t p found) left best"
    by (rule pre_to_inv[OF ok Cons.prems(1) r Ar])
  from span_while_correct[OF dT ne ok refl this]
  obtain f1 l1 b1 where
    w: "span_while A (length T) (AList.update t p found) left best = Inr (f1, l1, b1)"
    and pre1: "span_pre W T A (Suc r) f1 l1 b1"
    by blast
  from Cons.IH[OF pre1 rest] obtain found' left' best' where
    "span_for A (length T) rest (f1, l1, b1) = Inr (found', left', best')"
    "span_pre W T A (length A) found' left' best'"
    by blast
  with w show ?case by (simp add: x)
qed

lemma best_from_pre:
  assumes pre: "span_pre W T A (length A) found left best"
    and ne: "T \<noteq> []" and present: "\<forall>t \<in> set T. t \<in> set W"
  shows "best = best_span_width W T"
proof -
  from pre have lb: "\<And>i j. covers W T i j \<Longrightarrow> best \<le> j - i + 1"
    and P6: "best = length W + 1 \<or> (\<exists>i j. covers W T i j \<and> best = j - i + 1)"
    unfolding span_pre_def by simp_all
  from ne present have "W \<noteq> []" by (cases T) auto
  then have lw: "length W - 1 < length W" by simp
  have "covers W T 0 (length W - 1)"
    unfolding covers_def
  proof (intro conjI ballI)
    show "0 \<le> length W - 1" by simp
    show "length W - 1 < length W" by (rule lw)
    fix t assume "t \<in> set T"
    with present have "t \<in> set W" by simp
    then obtain p where "p < length W" "W ! p = t" by (auto simp: in_set_conv_nth)
    then show "\<exists>p. 0 \<le> p \<and> p \<le> length W - 1 \<and> W ! p = t" by (intro exI[of _ p]) simp
  qed
  from lb[OF this] lw have "best \<le> length W" by simp
  with P6 obtain i j where ij: "covers W T i j" "best = j - i + 1" by auto
  show ?thesis
    unfolding best_span_width_def
  proof (rule Least_equality[symmetric])
    show "\<exists>i j. covers W T i j \<and> best = j - i + 1" using ij by blast
  next
    fix w assume "\<exists>i j. covers W T i j \<and> w = j - i + 1"
    then show "best \<le> w" using lb by auto
  qed
qed

lemma minimal_span_score_distinct:
  assumes dT: "distinct (map (norm_text U) terms)" and ne: "terms \<noteq> []"
  shows "minimal_span_score U txt terms = Inr (span_score_spec U txt terms)"
proof -
  define W where "W = split U (norm_text U txt)"
  define T where "T = map (norm_text U) terms"
  define A where "A = all_positions_of W T"
  have T_ne: "T \<noteq> []" and T_d: "distinct T" using ne dT by (simp_all add: T_def)
  have absent: "list_ex (\<lambda>term. positions W term = []) T \<longleftrightarrow> (\<exists>t \<in> set T. t \<notin> set W)"
    by (simp add: list_ex_iff positions_empty_iff)
  have code: "minimal_span_score U txt terms =
      (if list_ex (\<lambda>term. positions W term = []) T then Inr 0
       else (case span_for A (length T) A ([], 0, length W + 1) of
               Inl e \<Rightarrow> Inl e
             | Inr (found_terms, left, best_span) \<Rightarrow> Inr (1 / (real best_span + 1))))"
    by (simp add: minimal_span_score_def Let_def W_def T_def A_def norm_text_def[abs_def])
  have spec: "span_score_spec U txt terms =
      (if \<exists>t \<in> set T. t \<notin> set W then 0 else 1 / (real (best_span_width W T) + 1))"
    by (simp add: span_score_spec_def Let_def W_def T_def)
  show ?thesis
  proof (cases "\<exists>t \<in> set T. t \<notin> set W")
    case True
    then show ?thesis unfolding code spec using absent by simp
  next
    case False
    then have present: "\<forall>t \<in> set T. t \<in> set W" by simp
    have ok: "occurrences_ok W T A" unfolding A_def by (rule all_positions_of_ok[OF T_d])
    have "span_pre W T A 0 [] 0 (length W + 1)" by (rule span_pre_init[OF ok T_ne])
    from span_for_correct[OF ok T_d T_ne this, of A]
    obtain found' left' best' where
      f: "span_for A (length T) A ([], 0, length W + 1) = Inr (found', left', best')"
      and pre: "span_pre W T A (length A) found' left' best'"
      by auto
    have "best' = best_span_width W T" by (rule best_from_pre[OF pre T_ne present])
    then show ?thesis unfolding code spec using False absent f by simp
  qed
qed

lemma repeated_term_words:
  "split ascii (norm_text ascii (str ''a b'')) = [str ''a'', str ''b'']"
  "map (norm_text ascii) [str ''a'', str ''a''] = [str ''a'', str ''a'']"
  by code_simp+

lemma repeated_term_width:
  "best_span_width [str ''a'', str ''b''] [str ''a'', str ''a''] = 1"
  unfolding best_span_width_def
proof (rule Least_equality)
  have "covers [str ''a'', str ''b''] [str ''a'', str ''a''] 0 0"
    by (simp add: covers_def)
  then show "\<exists>i j. covers [str ''a'', str ''b''] [str ''a'', str ''a''] i j \<and> 1 = j - i + 1"
    by (intro exI[of _ 0]) simp
next
  fix w assume "\<exists>i j. covers [str ''a'', str ''b''] [str ''a'', str ''a''] i j \<and> w = j - i + 1"
  then show "1 \<le> w" by auto
qed

lemma repeated_term_spec:
  "span_score_spec ascii (str ''a b'') [str ''a'', str ''a''] = 1 / 2"
proof -
  have "\<not> (\<exists>t \<in> set [str ''a'', str ''a'']. t \<notin> set [str ''a'', str ''b''])" by simp
  then show ?thesis
    unfolding span_score_spec_def Let_def repeated_term_words
    by (simp only: if_False repeated_term_width) simp
qed

lemma case_variants_words:
  "map (norm_text ascii) [str ''A'', str ''a''] = [str ''a'', str ''a'']"
  by code_simp

lemma case_variants_spec:
  "span_score_spec ascii (str ''a b'') [str ''A'', str ''a''] = 1 / 2"
proof -
  have "\<not> (\<exists>t \<in> set [str ''a'', str ''a'']. t \<notin> set [str ''a'', str ''b''])" by simp
  then show ?thesis
    unfolding span_score_spec_def Let_def repeated_term_words(1) case_variants_words
    by (simp only: if_False repeated_term_width) simp
qed

lemma repeated_term_code:
  "minimal_span_score ascii (str ''a b'') [str ''a'', str ''a''] = Inr (1 / 4)"
  by code_simp

lemma case_variants_code:
  "minimal_span_score ascii (str ''a b'') [str ''A'', str ''a''] = Inr (1 / 4)"
  by code_simp

text \<open>
  C6, at the text \<open>a b\<close> with the query terms \<open>a, a\<close> (what the query \<open>a a\<close> gives) and
  with the query terms \<open>A, a\<close>. In both cases the only normalised term is \<open>a\<close>, the
  shortest window that holds it has width 1, and the score of the specification is
  \<open>1 / 2\<close>. The program compares the size of the dictionary \<open>found_terms\<close>, which has one
  key, with the length of the list of normalised terms, which is 2; the \<open>while\<close> loop
  never runs, \<open>best_span\<close> keeps its initial value \<open>len(words) + 1 = 3\<close>, and the result is
  \<open>1 / 4\<close>. (When the normalised terms are pairwise distinct the program agrees with the
  specification: \<open>minimal_span_score_distinct\<close>.)
\<close>

theorem minimal_span_score_repeated_term:
  "minimal_span_score ascii (str ''a b'') [str ''a'', str ''a''] = Inr (1 / 4) \<and>
   span_score_spec ascii (str ''a b'') [str ''a'', str ''a''] = 1 / 2 \<and>
   minimal_span_score ascii (str ''a b'') [str ''A'', str ''a''] = Inr (1 / 4) \<and>
   span_score_spec ascii (str ''a b'') [str ''A'', str ''a''] = 1 / 2"
  using repeated_term_code repeated_term_spec case_variants_code case_variants_spec
  by (intro conjI)

lemma span_scores_ids:
  "span_scores U corpus terms top_docs = Inr scores \<Longrightarrow> map fst scores = map fst top_docs"
proof (induction top_docs arbitrary: scores)
  case Nil
  then show ?case by simp
next
  case (Cons c rest)
  obtain doc_id s where c: "c = (doc_id, s)" by (cases c)
  from Cons.prems obtain v scores' where
    "span_scores U corpus terms rest = Inr scores'" "scores = (doc_id, v) # scores'"
    by (auto simp: c split: sum.splits)
  with Cons.IH show ?case by (simp add: c)
qed

lemma rerank_minimal_span_stable:
  assumes "rerank_minimal_span U corpus top_docs terms = Inr r"
  shows "\<exists>scores. span_scores U corpus terms top_docs = Inr scores \<and>
           map fst scores = map fst top_docs \<and> descending r \<and> mset r = mset scores \<and>
           (\<forall>s. filter (\<lambda>c. snd c = s) r = filter (\<lambda>c. snd c = s) scores)"
proof -
  from assms obtain scores where s: "span_scores U corpus terms top_docs = Inr scores"
    and r: "r = sort_reverse snd scores"
    by (auto simp: rerank_minimal_span_def split: sum.splits)
  show ?thesis
    using s span_scores_ids[OF s] unfolding r
    by (auto simp: descending_sort_reverse mset_sort_reverse sort_reverse_stable)
qed

end
